theory Spec2Isabelle
  imports Main "HOL-Library.Word"
begin

unbundle bit_operations_syntax

section \<open>Buffers and JavaScript numbers\<close>

text \<open>
  A Node \<open>Buffer\<close> is a sequence of bytes. The sizes, offsets, counts and timestamps of
  \<open>mrr-reader.js\<close> are JavaScript Numbers that hold non-negative integers; they are
  modelled as \<open>nat\<close>, with the rounding of the 64-bit float written out wherever the
  source converts or adds.
\<close>

type_synonym byte = "8 word"
type_synonym buffer = "byte list"

text \<open>
  The exceptions the two source files can raise while a recording is decoded:
  the five \<open>throw new Error(...)\<close> of \<open>mrr-reader.js\<close>, the \<open>RangeError\<close> of the
  Buffer read methods on an offset outside the buffer, and the \<open>SyntaxError\<close> of
  \<open>JSON.parse\<close>.
\<close>

datatype error =
    BufferTooSmallForHeader nat   \<comment> \<open>\<open>Buffer too small for header: n < 256\<close>\<close>
  | BadMagicBytes                 \<comment> \<open>\<open>Invalid MRR file: bad magic bytes\<close>\<close>
  | UnsupportedVersion nat        \<comment> \<open>\<open>Unsupported MRR version: v\<close>\<close>
  | BufferTooSmallForFooter nat   \<comment> \<open>\<open>Buffer too small for footer: n < 32\<close>\<close>
  | BadFooterMagicBytes           \<comment> \<open>\<open>Invalid MRR footer: bad magic bytes\<close>\<close>
  | RangeError                    \<comment> \<open>a Buffer read outside the buffer\<close>
  | SyntaxError                   \<comment> \<open>\<open>JSON.parse\<close> on a text that is not JSON\<close>

text \<open>
  \<open>buffer.constants.MAX_LENGTH\<close>: no Buffer is longer than \<open>2^53 - 1\<close> bytes (the bound
  of current 64-bit builds; older releases have smaller ones).
\<close>

definition kMaxLength :: nat where
  "kMaxLength = 2 ^ 53 - 1"

fun bit_length :: "nat \<Rightarrow> nat" where
  "bit_length n = (if n = 0 then 0 else Suc (bit_length (n div 2)))"

declare bit_length.simps [simp del]

text \<open>
  The Number nearest to a non-negative integer: itself below \<open>2^53\<close>, and otherwise
  rounded to 53 significant bits, a tie going to the even significand. This is what
  \<open>Number(bigint)\<close> returns, and what \<open>+\<close> and \<open>-\<close> return for the exact integer result
  of two integral Numbers.
\<close>

definition to_Number :: "nat \<Rightarrow> nat" where
  "to_Number n =
     (if n < 2 ^ 53 then n
      else let e = bit_length n - 53;
               q = n div 2 ^ e;
               r = n mod 2 ^ e;
               half = 2 ^ (e - 1)
           in (if r < half \<or> (r = half \<and> even q) then q else q + 1) * 2 ^ e)"

definition js_add :: "nat \<Rightarrow> nat \<Rightarrow> nat" where
  "js_add a b = to_Number (a + b)"

definition js_sub :: "nat \<Rightarrow> nat \<Rightarrow> int" where
  "js_sub a b = (if b \<le> a then int (to_Number (a - b)) else - int (to_Number (b - a)))"

text \<open>Little-endian value of a byte sequence.\<close>

fun le_nat :: "byte list \<Rightarrow> nat" where
  "le_nat [] = 0"
| "le_nat (b # bs) = unat b + 256 * le_nat bs"

text \<open>
  \<open>buf.subarray(start, end)\<close> for non-negative integral arguments: both ends are clamped
  to the buffer, and the view is empty when \<open>end \<le> start\<close>. It never raises.
\<close>

definition subarray :: "buffer \<Rightarrow> nat \<Rightarrow> nat \<Rightarrow> buffer" where
  "subarray buf start end = drop start (take end buf)"

text \<open>
  \<open>buf.subarray(start)\<close> with one argument that may be negative: a negative start counts
  from the end of the buffer.
\<close>

definition subarray_from :: "buffer \<Rightarrow> int \<Rightarrow> buffer" where
  "subarray_from buf start =
     (let n = int (length buf);
          s = (if start < 0 then max (n + start) 0 else min start n)
      in drop (nat s) buf)"

text \<open>
  The Buffer read methods raise a \<open>RangeError\<close> unless all the bytes read lie inside the
  buffer.
\<close>

definition readUInt8 :: "buffer \<Rightarrow> nat \<Rightarrow> error + byte" where
  "readUInt8 buf offset =
     (if offset + 1 \<le> length buf then Inr (buf ! offset) else Inl RangeError)"

definition readU16 :: "buffer \<Rightarrow> nat \<Rightarrow> error + nat" where
  "readU16 buf offset =
     (if offset + 2 \<le> length buf then Inr (le_nat (take 2 (drop offset buf)))
      else Inl RangeError)"

definition readU32 :: "buffer \<Rightarrow> nat \<Rightarrow> error + nat" where
  "readU32 buf offset =
     (if offset + 4 \<le> length buf then Inr (le_nat (take 4 (drop offset buf)))
      else Inl RangeError)"

definition readU64 :: "buffer \<Rightarrow> nat \<Rightarrow> error + nat" where
  "readU64 buf offset =
     (if offset + 8 \<le> length buf then Inr (to_Number (le_nat (take 8 (drop offset buf))))
      else Inl RangeError)"

text \<open>Sequencing of computations that may raise.\<close>

definition bindE :: "error + 'a \<Rightarrow> ('a \<Rightarrow> error + 'b) \<Rightarrow> error + 'b" where
  "bindE m f = (case m of Inl e \<Rightarrow> Inl e | Inr x \<Rightarrow> f x)"

section \<open>The recording file: constants\<close>

definition MRR_MAGIC :: buffer where
  "MRR_MAGIC = [0x4D, 0x52, 0x52, 0x31]"

definition MRR_FOOTER_MAGIC :: buffer where
  "MRR_FOOTER_MAGIC = [0x4D, 0x52, 0x52, 0x46]"

definition MRR_VERSION :: nat where
  "MRR_VERSION = 1"

definition HEADER_SIZE :: nat where
  "HEADER_SIZE = 256"

definition FOOTER_SIZE :: nat where
  "FOOTER_SIZE = 32"

definition FRAME_FLAG_HAS_STATE :: byte where
  "FRAME_FLAG_HAS_STATE = 0x01"

section \<open>Header, footer and frame records\<close>

record MrrHeader =
  version :: nat
  flags :: nat
  radarBrand :: nat
  spokesPerRev :: nat
  maxSpokeLen :: nat
  pixelValues :: nat
  startTimeMs :: nat
  capabilitiesOffset :: nat
  capabilitiesLen :: nat
  initialStateOffset :: nat
  initialStateLen :: nat
  framesOffset :: nat

text \<open>
  \<open>MrrHeader.fromBuffer\<close>: the size check, the magic check, the version check, then the
  fields at their fixed offsets.
\<close>

definition MrrHeader_fromBuffer :: "buffer \<Rightarrow> error + MrrHeader" where
  "MrrHeader_fromBuffer buf =
     (if length buf < HEADER_SIZE then Inl (BufferTooSmallForHeader (length buf))
      else if subarray buf 0 4 \<noteq> MRR_MAGIC then Inl BadMagicBytes
      else bindE (readU16 buf 4) (\<lambda>v.
        if v > MRR_VERSION then Inl (UnsupportedVersion v)
        else bindE (readU16 buf 6) (\<lambda>fl.
          bindE (readU32 buf 8) (\<lambda>brand.
          bindE (readU32 buf 12) (\<lambda>spokes.
          bindE (readU32 buf 16) (\<lambda>spokeLen.
          bindE (readU32 buf 20) (\<lambda>pixels.
          bindE (readU64 buf 24) (\<lambda>start.
          bindE (readU64 buf 32) (\<lambda>capOff.
          bindE (readU32 buf 40) (\<lambda>capLen.
          bindE (readU64 buf 44) (\<lambda>stOff.
          bindE (readU32 buf 52) (\<lambda>stLen.
          bindE (readU64 buf 56) (\<lambda>frOff.
            Inr \<lparr>version = v, flags = fl, radarBrand = brand, spokesPerRev = spokes,
                 maxSpokeLen = spokeLen, pixelValues = pixels, startTimeMs = start,
                 capabilitiesOffset = capOff, capabilitiesLen = capLen,
                 initialStateOffset = stOff, initialStateLen = stLen,
                 framesOffset = frOff\<rparr>)))))))))))))"

record MrrFooter =
  indexOffset :: nat
  indexCount :: nat
  frameCount :: nat
  durationMs :: nat

definition MrrFooter_fromBuffer :: "buffer \<Rightarrow> error + MrrFooter" where
  "MrrFooter_fromBuffer buf =
     (if length buf < FOOTER_SIZE then Inl (BufferTooSmallForFooter (length buf))
      else if subarray buf 0 4 \<noteq> MRR_FOOTER_MAGIC then Inl BadFooterMagicBytes
      else bindE (readU64 buf 4) (\<lambda>ixOff.
           bindE (readU32 buf 12) (\<lambda>ixCount.
           bindE (readU32 buf 16) (\<lambda>frCount.
           bindE (readU64 buf 20) (\<lambda>dur.
             Inr \<lparr>indexOffset = ixOff, indexCount = ixCount, frameCount = frCount,
                  durationMs = dur\<rparr>)))))"

text \<open>A frame; \<open>stateDelta\<close> is \<open>null\<close> (here \<open>None\<close>) unless the frame carries one.\<close>

record MrrFrame =
  timestampMs :: nat
  flags :: byte
  data :: buffer
  stateDelta :: "buffer option"

text \<open>
  \<open>MrrFrame.fromBuffer(buf, offset)\<close> returns the frame and \<open>bytesRead\<close>, the offset
  after the frame. The three fixed fields are read with the Buffer read methods, which
  raise outside the buffer; the two payloads are cut with \<open>subarray\<close>, which clamps.
\<close>

definition MrrFrame_fromBuffer :: "buffer \<Rightarrow> nat \<Rightarrow> error + (MrrFrame \<times> nat)" where
  "MrrFrame_fromBuffer buf offset =
     bindE (readU64 buf offset) (\<lambda>ts.
       let offset1 = js_add offset 8 in
       bindE (readUInt8 buf offset1) (\<lambda>fl.
         let offset2 = js_add offset1 1 in
         bindE (readU32 buf offset2) (\<lambda>dataLen.
           let offset3 = js_add offset2 4;
               d = subarray buf offset3 (js_add offset3 dataLen);
               offset4 = js_add offset3 dataLen
           in if fl AND FRAME_FLAG_HAS_STATE \<noteq> 0
              then bindE (readU32 buf offset4) (\<lambda>stateLen.
                     let offset5 = js_add offset4 4;
                         sd = subarray buf offset5 (js_add offset5 stateLen);
                         offset6 = js_add offset5 stateLen
                     in Inr (\<lparr>timestampMs = ts, flags = fl, data = d,
                               stateDelta = Some sd\<rparr>, offset6))
              else Inr (\<lparr>timestampMs = ts, flags = fl, data = d,
                         stateDelta = None\<rparr>, offset4))))"

section \<open>The reader\<close>

text \<open>
  The reader after a successful \<open>load\<close>. The two JSON documents are values of a type
  \<open>'j\<close> the model does not look into.
\<close>

record 'j MrrReader =
  buffer :: buffer
  header :: MrrHeader
  footer :: MrrFooter
  capabilities :: 'j
  initialState :: 'j
  currentOffset :: nat
  currentFrame :: nat

text \<open>
  \<open>MrrReader.load\<close>, from the point where the file's bytes (decompressed by the host's
  \<open>zlib\<close> when the name ends in \<open>.gz\<close>) are in \<open>this.buffer\<close>. The parameter \<open>parse\<close>
  stands for \<open>JSON.parse(b.toString('utf8'))\<close>, a function of the host: \<open>None\<close> when it
  raises its \<open>SyntaxError\<close>.
\<close>

definition MrrReader_load :: "(buffer \<Rightarrow> 'j option) \<Rightarrow> buffer \<Rightarrow> error + 'j MrrReader" where
  "MrrReader_load parse dat =
     bindE (MrrHeader_fromBuffer dat) (\<lambda>h.
       let footerBuf = subarray_from dat (int (length dat) - int FOOTER_SIZE) in
       bindE (MrrFooter_fromBuffer footerBuf) (\<lambda>f.
         let capBuf = subarray dat (capabilitiesOffset h)
                        (js_add (capabilitiesOffset h) (capabilitiesLen h)) in
         case parse capBuf of
           None \<Rightarrow> Inl SyntaxError
         | Some caps \<Rightarrow>
             let stateBuf = subarray dat (initialStateOffset h)
                              (js_add (initialStateOffset h) (initialStateLen h)) in
             (case parse stateBuf of
                None \<Rightarrow> Inl SyntaxError
              | Some st \<Rightarrow>
                  Inr \<lparr>buffer = dat, header = h, footer = f, capabilities = caps,
                       initialState = st, currentOffset = framesOffset h,
                       currentFrame = 0\<rparr>)))"

definition readFrame :: "'j MrrReader \<Rightarrow> error + (MrrFrame option \<times> 'j MrrReader)" where
  "readFrame r =
     (if currentFrame r \<ge> frameCount (footer r) then Inr (None, r)
      else bindE (MrrFrame_fromBuffer (buffer r) (currentOffset r)) (\<lambda>(frame, bytesRead).
             Inr (Some frame, r\<lparr>currentOffset := bytesRead,
                                  currentFrame := currentFrame r + 1\<rparr>)))"

definition rewind :: "'j MrrReader \<Rightarrow> 'j MrrReader" where
  "rewind r = r\<lparr>currentOffset := framesOffset (header r), currentFrame := 0\<rparr>"

text \<open>A frame is returned only below the footer's count, and advances the frame counter.\<close>

lemma readFrame_Some:
  assumes "readFrame r = Inr (Some f, r')"
  shows "currentFrame r < frameCount (footer r) \<and>
         currentFrame r' = currentFrame r + 1 \<and> footer r' = footer r"
  using assms
  by (auto simp: readFrame_def bindE_def split: if_splits sum.splits prod.splits)

text \<open>
  The generator \<open>frames()\<close>, run to its end as the \<open>for ... of\<close> loop of the player's
  \<open>load\<close> runs it: rewind, then \<open>readFrame\<close> until it returns \<open>null\<close>. An exception of
  \<open>readFrame\<close> ends the loop.
\<close>

function frames_loop :: "'j MrrReader \<Rightarrow> error + (MrrFrame list \<times> 'j MrrReader)" where
  "frames_loop r =
     (case readFrame r of
        Inl e \<Rightarrow> Inl e
      | Inr (None, r') \<Rightarrow> Inr ([], r')
      | Inr (Some frame, r') \<Rightarrow>
          (case frames_loop r' of
             Inl e \<Rightarrow> Inl e
           | Inr (fs, r'') \<Rightarrow> Inr (frame # fs, r'')))"
  by pat_completeness auto
termination
  by (relation "measure (\<lambda>r. frameCount (footer r) - currentFrame r)")
     (auto dest!: readFrame_Some)

declare frames_loop.simps [simp del]

definition MrrReader_frames :: "'j MrrReader \<Rightarrow> error + (MrrFrame list \<times> 'j MrrReader)" where
  "MrrReader_frames r = frames_loop (rewind r)"

section \<open>Numbers, reads and slices: basic facts\<close>

text \<open>Below \<open>2^53\<close> every integer is a Number; rounding never takes a larger one below it.\<close>

lemma to_Number_exact: "n \<le> kMaxLength \<Longrightarrow> to_Number n = n"
  by (simp add: to_Number_def kMaxLength_def)

lemma bit_length_lower: "0 < n \<Longrightarrow> 2 ^ (bit_length n - 1) \<le> n"
proof (induction n rule: bit_length.induct)
  case (1 n)
  show ?case
  proof (cases "n div 2 = 0")
    case True
    with 1(2) have "n = 1" by (simp add: div_eq_0_iff)
    then show ?thesis by (simp add: bit_length.simps[of "Suc 0"] bit_length.simps[of 0])
  next
    case False
    then have pos: "0 < n div 2" by simp
    with 1 have ih: "2 ^ (bit_length (n div 2) - 1) \<le> n div 2" by simp
    have bl: "bit_length n = Suc (bit_length (n div 2))"
      using 1(2) by (simp add: bit_length.simps[of n])
    have "0 < bit_length (n div 2)" using pos by (simp add: bit_length.simps[of "n div 2"])
    then have "(2::nat) ^ (bit_length n - 1) = 2 * 2 ^ (bit_length (n div 2) - 1)"
      using bl by (cases "bit_length (n div 2)") simp_all
    also have "\<dots> \<le> 2 * (n div 2)" using ih by simp
    also have "\<dots> \<le> n" by simp
    finally show ?thesis .
  qed
qed

lemma bit_length_upper: "n < 2 ^ bit_length n"
proof (induction n rule: bit_length.induct)
  case (1 n)
  show ?case
  proof (cases "n = 0")
    case True then show ?thesis by simp
  next
    case False
    with 1 have "n div 2 < 2 ^ bit_length (n div 2)" by simp
    then have "n < 2 * 2 ^ bit_length (n div 2)" by linarith
    then show ?thesis using False by (simp add: bit_length.simps[of n])
  qed
qed

lemma to_Number_ge: assumes "2 ^ 53 \<le> n" shows "2 ^ 53 \<le> to_Number n"
proof -
  define e where "e = bit_length n - 53"
  define q where "q = n div 2 ^ e"
  have npos: "0 < n" using assms by (simp add: less_le_trans[of 0 "2^53" n])
  have "(2::nat) ^ 53 < 2 ^ bit_length n" using assms bit_length_upper[of n] by linarith
  then have bl: "53 < bit_length n" by (simp only: power_strict_increasing_iff)
  have "52 + e = bit_length n - 1" using bl by (simp add: e_def)
  then have "(2::nat) ^ 52 * 2 ^ e = 2 ^ (bit_length n - 1)"
    by (simp only: power_add[symmetric])
  also have "\<dots> \<le> n" using bit_length_lower[OF npos] .
  finally have "2 ^ 52 \<le> q" unfolding q_def
    by (simp add: less_eq_div_iff_mult_less_eq)
  moreover have "1 \<le> e" using bl by (simp add: e_def)
  then have "(2::nat) ^ 1 \<le> 2 ^ e" by (rule power_increasing) simp
  ultimately have "(2::nat) ^ 52 * 2 ^ 1 \<le> q * 2 ^ e" by (rule mult_le_mono)
  then have *: "2 ^ 53 \<le> q * 2 ^ e" by simp
  have "q * 2 ^ e \<le> to_Number n"
    using assms by (simp add: to_Number_def Let_def e_def[symmetric] q_def[symmetric])
  with * show ?thesis by linarith
qed

lemma to_Number_large: "kMaxLength < n \<Longrightarrow> kMaxLength < to_Number n"
  using to_Number_ge[of n] by (simp add: kMaxLength_def)

lemma js_add_exact: "a + b \<le> kMaxLength \<Longrightarrow> js_add a b = a + b"
  by (simp add: js_add_def to_Number_exact)

lemma js_add_large: "kMaxLength < a + b \<Longrightarrow> kMaxLength < js_add a b"
  by (simp add: js_add_def to_Number_large)

lemma bindE_Inr [simp]: "bindE (Inr x) f = f x"
  by (simp add: bindE_def)

lemma bindE_Inl [simp]: "bindE (Inl e) f = Inl e"
  by (simp add: bindE_def)

lemma subarray_0 [simp]: "subarray buf 0 n = take n buf"
  by (simp add: subarray_def)

lemma readU64_at:
  "length ts = 8 \<Longrightarrow> readU64 (pre @ ts @ rest) (length pre) = Inr (to_Number (le_nat ts))"
  by (simp add: readU64_def)

lemma readUInt8_at:
  "readUInt8 (pre @ b # rest) (length pre) = Inr b"
  by (simp add: readUInt8_def)

lemma readU32_at:
  "length dl = 4 \<Longrightarrow> readU32 (pre @ dl @ rest) (length pre) = Inr (le_nat dl)"
  by (simp add: readU32_def)

lemma readU32_outside: "length buf < offset + 4 \<Longrightarrow> readU32 buf offset = Inl RangeError"
  by (simp add: readU32_def)

lemma subarray_at:
  "subarray (pre @ xs @ rest) (length pre) (length pre + length xs) = xs"
  by (simp add: subarray_def)

lemma drop_at: "drop (length xs) (xs @ ys) = ys"
  by simp

lemma subarray_clamped:
  "length buf \<le> end \<Longrightarrow> subarray buf start end = drop start buf"
  by (simp add: subarray_def)

text \<open>The fixed part of a frame record: timestamp, flags and data length.\<close>

lemma frame_prefix:
  assumes len: "length buf \<le> kMaxLength"
    and buf: "buf = pre @ ts @ [fl] @ dl @ rest"
    and ts: "length ts = 8" and dl: "length dl = 4"
  shows "MrrFrame_fromBuffer buf (length pre) =
     (let offset3 = length pre + 13;
          d = subarray buf offset3 (js_add offset3 (le_nat dl));
          offset4 = js_add offset3 (le_nat dl)
      in if fl AND FRAME_FLAG_HAS_STATE \<noteq> 0
         then bindE (readU32 buf offset4) (\<lambda>stateLen.
                let offset5 = js_add offset4 4;
                    sd = subarray buf offset5 (js_add offset5 stateLen);
                    offset6 = js_add offset5 stateLen
                in Inr (\<lparr>timestampMs = to_Number (le_nat ts), flags = fl, data = d,
                          stateDelta = Some sd\<rparr>, offset6))
         else Inr (\<lparr>timestampMs = to_Number (le_nat ts), flags = fl, data = d,
                    stateDelta = None\<rparr>, offset4))"
proof -
  have bound: "length pre + 13 \<le> kMaxLength"
    using len by (simp add: buf ts dl)
  have o1: "js_add (length pre) 8 = length pre + 8"
    using bound by (intro js_add_exact) simp
  have o2: "js_add (length pre + 8) (Suc 0) = length pre + 9"
    using bound js_add_exact[of "length pre + 8" 1] by simp
  have o3: "js_add (length pre + 9) 4 = length pre + 13"
    using bound js_add_exact[of "length pre + 9" 4] by simp
  have r1: "readU64 buf (length pre) = Inr (to_Number (le_nat ts))"
    unfolding buf using ts by (rule readU64_at)
  have r2: "readUInt8 buf (length pre + 8) = Inr fl"
    using readUInt8_at[of "pre @ ts" fl "dl @ rest"] by (simp add: buf ts)
  have r3: "readU32 buf (length pre + 9) = Inr (le_nat dl)"
    using readU32_at[OF dl, of "pre @ ts @ [fl]" rest] by (simp add: buf ts)
  show ?thesis
    by (simp add: MrrFrame_fromBuffer_def r1 o1 r2 o2 r3 o3 Let_def)
qed

lemma js_add_beyond:
  assumes "n \<le> kMaxLength" and "n < a + b"
  shows "n < js_add a b"
proof (cases "a + b \<le> kMaxLength")
  case True
  with assms show ?thesis by (simp add: js_add_exact)
next
  case False
  then have "kMaxLength < js_add a b" by (intro js_add_large) simp
  with assms show ?thesis by simp
qed

section \<open>Decoding the header\<close>

lemma header_short:
  "length buf < HEADER_SIZE \<Longrightarrow>
     MrrHeader_fromBuffer buf = Inl (BufferTooSmallForHeader (length buf))"
  by (simp add: MrrHeader_fromBuffer_def)

lemma header_bad_magic:
  "HEADER_SIZE \<le> length buf \<Longrightarrow> take 4 buf \<noteq> MRR_MAGIC \<Longrightarrow>
     MrrHeader_fromBuffer buf = Inl BadMagicBytes"
  by (simp add: MrrHeader_fromBuffer_def)

lemma header_bad_version:
  "HEADER_SIZE \<le> length buf \<Longrightarrow> take 4 buf = MRR_MAGIC \<Longrightarrow>
   MRR_VERSION < le_nat (take 2 (drop 4 buf)) \<Longrightarrow>
     MrrHeader_fromBuffer buf = Inl (UnsupportedVersion (le_nat (take 2 (drop 4 buf))))"
  by (simp add: MrrHeader_fromBuffer_def readU16_def HEADER_SIZE_def)

text \<open>
  C9 (as amended). A buffer whose first four bytes are not the header magic never decodes.
  When the buffer holds a whole header (at least \<open>HEADER_SIZE\<close> bytes) the error is the
  bad-magic one, and with the right magic and a version above \<open>MRR_VERSION\<close> it is the
  unsupported-version one, carrying the version read. A shorter buffer is refused by the
  size check, which comes first, whatever its magic and version bytes are.
\<close>

theorem header_rejects:
  "(take 4 buf \<noteq> MRR_MAGIC \<longrightarrow> (\<exists>e. MrrHeader_fromBuffer buf = Inl e)) \<and>
   (HEADER_SIZE \<le> length buf \<and> take 4 buf \<noteq> MRR_MAGIC \<longrightarrow>
      MrrHeader_fromBuffer buf = Inl BadMagicBytes) \<and>
   (HEADER_SIZE \<le> length buf \<and> take 4 buf = MRR_MAGIC \<and>
    MRR_VERSION < le_nat (take 2 (drop 4 buf)) \<longrightarrow>
      MrrHeader_fromBuffer buf = Inl (UnsupportedVersion (le_nat (take 2 (drop 4 buf))))) \<and>
   (length buf < HEADER_SIZE \<longrightarrow>
      MrrHeader_fromBuffer buf = Inl (BufferTooSmallForHeader (length buf)))"
  using header_short[of buf] header_bad_magic[of buf] header_bad_version[of buf]
  by (cases "length buf < HEADER_SIZE") auto

theorem header_rejects_witness:
  "MrrHeader_fromBuffer ([0x4D, 0x52, 0x52, 0x30] @ replicate 252 0) = Inl BadMagicBytes \<and>
   MrrHeader_fromBuffer (MRR_MAGIC @ [2, 0] @ replicate 250 0) = Inl (UnsupportedVersion 2) \<and>
   MrrHeader_fromBuffer [0x4D, 0x52, 0x52, 0x30] = Inl (BufferTooSmallForHeader 4)"
  using header_rejects[of "[0x4D, 0x52, 0x52, 0x30] @ replicate 252 0"]
    header_rejects[of "MRR_MAGIC @ [2, 0] @ replicate 250 0"]
    header_rejects[of "[0x4D, 0x52, 0x52, 0x30]"]
  by (simp add: MRR_MAGIC_def HEADER_SIZE_def MRR_VERSION_def)

text \<open>
  The claim as first stated, for every buffer, fails on short ones: six bytes with the
  right magic and version 2 are refused as too small, not as an unsupported version, and
  four bytes with a flipped magic byte are refused as too small, not for their magic.
\<close>

theorem short_buffer_counterexample:
  "MrrHeader_fromBuffer (MRR_MAGIC @ [2, 0]) = Inl (BufferTooSmallForHeader 6) \<and>
   MrrHeader_fromBuffer [0x4D, 0x52, 0x52, 0x30] = Inl (BufferTooSmallForHeader 4)"
  by (simp add: MrrHeader_fromBuffer_def MRR_MAGIC_def HEADER_SIZE_def)

section \<open>Decoding one frame\<close>

text \<open>
  C3. Let the buffer, no longer than a Buffer can be, hold at offset \<open>length pre\<close> eight
  bytes \<open>ts\<close>, a flags byte \<open>fl\<close>, four bytes \<open>dl\<close> and then as many payload bytes as
  \<open>dl\<close> says in little-endian; and, when bit 0 of \<open>fl\<close> is set, four more bytes \<open>sl\<close> and
  as many state bytes as \<open>sl\<close> says. Then \<open>MrrFrame.fromBuffer\<close> returns the timestamp
  read from \<open>ts\<close>, the flags, exactly the payload, the state delta exactly when bit 0 is
  set (\<open>null\<close> otherwise), and the offset just after the last byte it consumed.
\<close>

theorem frame_record_layout:
  assumes len: "length buf \<le> kMaxLength"
    and buf: "buf = pre @ ts @ [fl] @ dl @ payload @ tail"
    and ts: "length ts = 8" and dl: "length dl = 4" and payload: "le_nat dl = length payload"
    and st: "fl AND FRAME_FLAG_HAS_STATE \<noteq> 0 \<Longrightarrow>
               tail = sl @ state @ rest \<and> length sl = 4 \<and> le_nat sl = length state"
  shows "MrrFrame_fromBuffer buf (length pre) =
     (if fl AND FRAME_FLAG_HAS_STATE \<noteq> 0
      then Inr (\<lparr>timestampMs = to_Number (le_nat ts), flags = fl, data = payload,
                  stateDelta = Some state\<rparr>,
                length pre + 8 + 1 + 4 + length payload + 4 + length state)
      else Inr (\<lparr>timestampMs = to_Number (le_nat ts), flags = fl, data = payload,
                  stateDelta = None\<rparr>,
                length pre + 8 + 1 + 4 + length payload))"
proof -
  define o3 where "o3 = length pre + 13"
  define o4 where "o4 = o3 + length payload"
  have l3: "length (pre @ ts @ [fl] @ dl) = o3"
    by (simp add: o3_def ts dl)
  have bound: "o4 \<le> kMaxLength"
    using len by (simp add: o4_def o3_def buf ts dl)
  have a4: "js_add o3 (le_nat dl) = o4"
    unfolding payload o4_def using bound by (intro js_add_exact) (simp add: o4_def)
  have d: "subarray buf o3 o4 = payload"
    using subarray_at[of "pre @ ts @ [fl] @ dl" payload tail]
    unfolding l3 o4_def by (simp add: buf)
  note prefix = frame_prefix[OF len buf ts dl, folded o3_def, unfolded Let_def a4 d]
  show ?thesis
  proof (cases "fl AND FRAME_FLAG_HAS_STATE \<noteq> 0")
    case False
    have "MrrFrame_fromBuffer buf (length pre) =
            Inr (\<lparr>timestampMs = to_Number (le_nat ts), flags = fl, data = payload,
                   stateDelta = None\<rparr>, o4)"
      using False prefix by simp
    with False show ?thesis
      by (simp add: o4_def o3_def)
  next
    case True
    with st have tail: "tail = sl @ state @ rest" and sl: "length sl = 4"
      and state: "le_nat sl = length state" by simp_all
    define o5 where "o5 = o4 + 4"
    define o6 where "o6 = o5 + length state"
    have l4: "length (pre @ ts @ [fl] @ dl @ payload) = o4"
      by (simp add: o4_def o3_def ts dl)
    have l5: "length (pre @ ts @ [fl] @ dl @ payload @ sl) = o5"
      by (simp add: o5_def o4_def o3_def ts dl sl)
    have bound2: "o6 \<le> kMaxLength"
      using len by (simp add: o6_def o5_def o4_def o3_def buf ts dl tail sl)
    have r: "readU32 buf o4 = Inr (length state)"
      using readU32_at[OF sl, of "pre @ ts @ [fl] @ dl @ payload" "state @ rest"]
      unfolding l4 state by (simp add: buf tail)
    have a5: "js_add o4 4 = o5"
      unfolding o5_def using bound2 by (intro js_add_exact) (simp add: o6_def o5_def)
    have a6: "js_add o5 (length state) = o6"
      unfolding o6_def using bound2 by (intro js_add_exact) (simp add: o6_def)
    have s: "subarray buf o5 o6 = state"
      using subarray_at[of "pre @ ts @ [fl] @ dl @ payload @ sl" state rest]
      unfolding l5 o6_def by (simp add: buf tail)
    have "MrrFrame_fromBuffer buf (length pre) =
            Inr (\<lparr>timestampMs = to_Number (le_nat ts), flags = fl, data = payload,
                   stateDelta = Some state\<rparr>, o6)"
      using True prefix by (simp add: r a5 a6 s)
    with True show ?thesis
      by (simp add: o6_def o5_def o4_def o3_def)
  qed
qed

theorem frame_record_layout_witness:
  "MrrFrame_fromBuffer ([0xAA] @ [1, 0, 0, 0, 0, 0, 0, 0] @ [1] @ [2, 0, 0, 0] @ [7, 8]
                          @ [1, 0, 0, 0] @ [9] @ [5]) 1 =
     Inr (\<lparr>timestampMs = 1, flags = 1, data = [7, 8], stateDelta = Some [9]\<rparr>, 21) \<and>
   MrrFrame_fromBuffer ([0xAA] @ [1, 0, 0, 0, 0, 0, 0, 0] @ [0] @ [2, 0, 0, 0] @ [7, 8]
                          @ [1, 0, 0, 0] @ [9] @ [5]) 1 =
     Inr (\<lparr>timestampMs = 1, flags = 0, data = [7, 8], stateDelta = None\<rparr>, 16)"
  using frame_record_layout[of "[0xAA] @ [1, 0, 0, 0, 0, 0, 0, 0] @ [1] @ [2, 0, 0, 0] @ [7, 8]
                          @ [1, 0, 0, 0] @ [9] @ [5]" "[0xAA]" "[1, 0, 0, 0, 0, 0, 0, 0]" 1
          "[2, 0, 0, 0]" "[7, 8]" "[1, 0, 0, 0] @ [9] @ [5]" "[1, 0, 0, 0]" "[9]" "[5]"]
    frame_record_layout[of "[0xAA] @ [1, 0, 0, 0, 0, 0, 0, 0] @ [0] @ [2, 0, 0, 0] @ [7, 8]
                          @ [1, 0, 0, 0] @ [9] @ [5]" "[0xAA]" "[1, 0, 0, 0, 0, 0, 0, 0]" 0
          "[2, 0, 0, 0]" "[7, 8]" "[1, 0, 0, 0] @ [9] @ [5]" "[]" "[]" "[]"]
  by (simp add: kMaxLength_def FRAME_FLAG_HAS_STATE_def to_Number_def)

text \<open>
  C1 (as amended). There is no truncated-frame error: a payload is cut with \<open>subarray\<close>,
  which clamps. When the declared data length asks for more bytes than remain after the
  13 fixed bytes, decoding raises a \<open>RangeError\<close> if the has-state flag is set (the read of
  the state length falls outside the buffer) and otherwise returns a frame whose payload
  is just the bytes that remain, with \<open>bytesRead\<close> past the end of the buffer. When the
  flag is set, the payload fits and the declared state length asks for more bytes than
  remain, decoding returns a frame whose state delta is just the bytes that remain.
\<close>

theorem overlong_lengths_are_clamped:
  assumes len: "length buf \<le> kMaxLength"
    and buf: "buf = pre @ ts @ [fl] @ dl @ rest"
    and ts: "length ts = 8" and dl: "length dl = 4"
  shows "(length rest < le_nat dl \<longrightarrow>
            MrrFrame_fromBuffer buf (length pre) =
              (if fl AND FRAME_FLAG_HAS_STATE \<noteq> 0 then Inl RangeError
               else Inr (\<lparr>timestampMs = to_Number (le_nat ts), flags = fl, data = rest,
                           stateDelta = None\<rparr>,
                         js_add (length pre + 13) (le_nat dl)))) \<and>
         (\<forall>payload sl tail.
            fl AND FRAME_FLAG_HAS_STATE \<noteq> 0 \<and> rest = payload @ sl @ tail \<and>
            le_nat dl = length payload \<and> length sl = 4 \<and> length tail < le_nat sl \<longrightarrow>
            MrrFrame_fromBuffer buf (length pre) =
              Inr (\<lparr>timestampMs = to_Number (le_nat ts), flags = fl, data = payload,
                     stateDelta = Some tail\<rparr>,
                   js_add (length pre + 13 + length payload + 4) (le_nat sl)))"
proof (intro conjI impI allI)
  define o3 where "o3 = length pre + 13"
  have l3: "length (pre @ ts @ [fl] @ dl) = o3"
    by (simp add: o3_def ts dl)
  have lb: "length buf = o3 + length rest"
    by (simp add: buf o3_def ts dl)
  have dr: "drop o3 buf = rest"
    using drop_at[of "pre @ ts @ [fl] @ dl" rest] unfolding l3 by (simp add: buf)
  note prefix = frame_prefix[OF len buf ts dl, folded o3_def, unfolded Let_def]
  {
    assume over: "length rest < le_nat dl"
    have beyond: "length buf < js_add o3 (le_nat dl)"
      using len over by (intro js_add_beyond) (simp_all add: lb)
    have d: "subarray buf o3 (js_add o3 (le_nat dl)) = rest"
      using beyond by (simp add: subarray_clamped dr)
    have r: "readU32 buf (js_add o3 (le_nat dl)) = Inl RangeError"
      using beyond by (intro readU32_outside) simp
    show "MrrFrame_fromBuffer buf (length pre) =
              (if fl AND FRAME_FLAG_HAS_STATE \<noteq> 0 then Inl RangeError
               else Inr (\<lparr>timestampMs = to_Number (le_nat ts), flags = fl, data = rest,
                           stateDelta = None\<rparr>,
                         js_add (length pre + 13) (le_nat dl)))"
      using prefix by (simp add: d r o3_def[symmetric])
  }
  {
    fix payload sl tail
    assume a: "fl AND FRAME_FLAG_HAS_STATE \<noteq> 0 \<and> rest = payload @ sl @ tail \<and>
            le_nat dl = length payload \<and> length sl = 4 \<and> length tail < le_nat sl"
    then have has: "fl AND FRAME_FLAG_HAS_STATE \<noteq> 0" and rest: "rest = payload @ sl @ tail"
      and payload: "le_nat dl = length payload" and sl: "length sl = 4"
      and over: "length tail < le_nat sl" by simp_all
    define o4 where "o4 = o3 + length payload"
    define o5 where "o5 = o4 + 4"
    have l4: "length (pre @ ts @ [fl] @ dl @ payload) = o4"
      by (simp add: o4_def o3_def ts dl)
    have l5: "length (pre @ ts @ [fl] @ dl @ payload @ sl) = o5"
      by (simp add: o5_def o4_def o3_def ts dl sl)
    have lb5: "length buf = o5 + length tail"
      by (simp add: buf rest o5_def o4_def o3_def ts dl sl)
    have a4: "js_add o3 (le_nat dl) = o4"
      unfolding payload o4_def using len by (intro js_add_exact) (simp add: lb5 o5_def o4_def)
    have d: "subarray buf o3 o4 = payload"
      using subarray_at[of "pre @ ts @ [fl] @ dl" payload "sl @ tail"]
      unfolding l3 o4_def by (simp add: buf rest)
    have r: "readU32 buf o4 = Inr (le_nat sl)"
      using readU32_at[OF sl, of "pre @ ts @ [fl] @ dl @ payload" tail]
      unfolding l4 by (simp add: buf rest)
    have a5: "js_add o4 4 = o5"
      unfolding o5_def using len by (intro js_add_exact) (simp add: lb5 o5_def)
    have beyond: "length buf < js_add o5 (le_nat sl)"
      using len over by (intro js_add_beyond) (simp_all add: lb5)
    have "drop o5 buf = tail"
      using drop_at[of "pre @ ts @ [fl] @ dl @ payload @ sl" tail]
      unfolding l5 by (simp add: buf rest)
    then have s: "subarray buf o5 (js_add o5 (le_nat sl)) = tail"
      using beyond by (simp add: subarray_clamped)
    have "MrrFrame_fromBuffer buf (length pre) =
            Inr (\<lparr>timestampMs = to_Number (le_nat ts), flags = fl, data = payload,
                   stateDelta = Some tail\<rparr>, js_add o5 (le_nat sl))"
      using has prefix by (simp add: a4 d r a5 s)
    moreover have "o5 = length pre + 13 + length payload + 4"
      by (simp add: o5_def o4_def o3_def)
    ultimately show "MrrFrame_fromBuffer buf (length pre) =
              Inr (\<lparr>timestampMs = to_Number (le_nat ts), flags = fl, data = payload,
                     stateDelta = Some tail\<rparr>,
                   js_add (length pre + 13 + length payload + 4) (le_nat sl))"
      by simp
  }
qed

theorem overlong_lengths_are_clamped_witness:
  "MrrFrame_fromBuffer ([0, 0, 0, 0, 0, 0, 0, 0] @ [1] @ [5, 0, 0, 0] @ [1, 2]) 0
     = Inl RangeError \<and>
   MrrFrame_fromBuffer ([0, 0, 0, 0, 0, 0, 0, 0] @ [1] @ [1, 0, 0, 0] @ [7] @ [9, 0, 0, 0]
                          @ [3, 4]) 0
     = Inr (\<lparr>timestampMs = 0, flags = 1, data = [7], stateDelta = Some [3, 4]\<rparr>, 27)"
proof -
  let ?zs = "[0, 0, 0, 0, 0, 0, 0, 0] :: buffer"
  let ?b1 = "?zs @ [1] @ [5, 0, 0, 0] @ [1, 2]"
  let ?b2 = "?zs @ [1] @ [1, 0, 0, 0] @ [7] @ [9, 0, 0, 0] @ [3, 4]"
  have l1: "length ?b1 \<le> kMaxLength" and l2: "length ?b2 \<le> kMaxLength"
    by (simp_all add: kMaxLength_def)
  have e1: "?b1 = [] @ ?zs @ [1] @ [5, 0, 0, 0] @ [1, 2]"
    and e2: "?b2 = [] @ ?zs @ [1] @ [1, 0, 0, 0] @ ([7] @ [9, 0, 0, 0] @ [3, 4])"
    by simp_all
  have "MrrFrame_fromBuffer ?b1 0 = Inl RangeError"
    using overlong_lengths_are_clamped[OF l1 e1, THEN conjunct1]
    by (simp add: FRAME_FLAG_HAS_STATE_def)
  moreover have "MrrFrame_fromBuffer ?b2 0
     = Inr (\<lparr>timestampMs = 0, flags = 1, data = [7], stateDelta = Some [3, 4]\<rparr>, 27)"
    using overlong_lengths_are_clamped[OF l2 e2, THEN conjunct2, rule_format,
        of "[7]" "[9, 0, 0, 0]" "[3, 4]"]
    by (simp add: FRAME_FLAG_HAS_STATE_def js_add_def to_Number_def)
  ultimately show ?thesis by simp
qed

text \<open>
  The claim as first stated fails where the flag is clear: thirteen fixed bytes that
  declare five payload bytes, followed by only two, decode to a frame with a two-byte
  payload.
\<close>

theorem short_payload_counterexample:
  "MrrFrame_fromBuffer ([0, 0, 0, 0, 0, 0, 0, 0] @ [0] @ [5, 0, 0, 0] @ [1, 2]) 0 =
     Inr (\<lparr>timestampMs = 0, flags = 0, data = [1, 2], stateDelta = None\<rparr>, 18)"
  by (simp add: MrrFrame_fromBuffer_def readU64_def readUInt8_def readU32_def js_add_def
      to_Number_def subarray_def FRAME_FLAG_HAS_STATE_def Let_def)

section \<open>Loading: the capabilities and initial-state blobs\<close>

lemma le_nat_zeros [simp]: "le_nat (replicate n 0) = 0"
  by (induction n) simp_all

lemma load_after_header_and_footer:
  assumes h: "MrrHeader_fromBuffer dat = Inr h"
    and f: "MrrFooter_fromBuffer (subarray_from dat (int (length dat) - int FOOTER_SIZE)) = Inr f"
  shows "MrrReader_load parse dat =
      (case parse (subarray dat (capabilitiesOffset h)
                     (js_add (capabilitiesOffset h) (capabilitiesLen h))) of
         None \<Rightarrow> Inl SyntaxError
       | Some caps \<Rightarrow>
           (case parse (subarray dat (initialStateOffset h)
                          (js_add (initialStateOffset h) (initialStateLen h))) of
              None \<Rightarrow> Inl SyntaxError
            | Some st \<Rightarrow>
                Inr \<lparr>buffer = dat, header = h, footer = f, capabilities = caps,
                     initialState = st, currentOffset = framesOffset h,
                     currentFrame = 0\<rparr>))"
  by (simp add: MrrReader_load_def h f Let_def split: option.splits)

lemma subarray_beyond:
  assumes "length dat \<le> kMaxLength" and "length dat < off + n"
  shows "subarray dat off (js_add off n) = drop off dat"
proof -
  have "length dat < js_add off n"
    using assms by (rule js_add_beyond)
  then show ?thesis
    by (simp add: subarray_clamped)
qed

text \<open>
  C2 (as amended). Let the header and the footer of a buffer decode. When the header's
  capabilities offset plus length lies beyond the buffer, \<open>load\<close> raises no range error:
  it hands the parser the bytes from the offset to the end of the buffer (none when the
  offset is beyond the end), and fails only if the parser does, with the parser's
  \<open>SyntaxError\<close>. The same holds for the initial-state blob.
\<close>

theorem load_clamps_blob_slices:
  assumes len: "length dat \<le> kMaxLength"
    and h: "MrrHeader_fromBuffer dat = Inr h"
    and f: "MrrFooter_fromBuffer (subarray_from dat (int (length dat) - int FOOTER_SIZE)) = Inr f"
  shows "(length dat < capabilitiesOffset h + capabilitiesLen h \<longrightarrow>
            MrrReader_load parse dat =
              (case parse (drop (capabilitiesOffset h) dat) of
                 None \<Rightarrow> Inl SyntaxError
               | Some caps \<Rightarrow>
                   (case parse (subarray dat (initialStateOffset h)
                                  (js_add (initialStateOffset h) (initialStateLen h))) of
                      None \<Rightarrow> Inl SyntaxError
                    | Some st \<Rightarrow>
                        Inr \<lparr>buffer = dat, header = h, footer = f, capabilities = caps,
                             initialState = st, currentOffset = framesOffset h,
                             currentFrame = 0\<rparr>))) \<and>
         (length dat < initialStateOffset h + initialStateLen h \<longrightarrow>
            MrrReader_load parse dat =
              (case parse (subarray dat (capabilitiesOffset h)
                             (js_add (capabilitiesOffset h) (capabilitiesLen h))) of
                 None \<Rightarrow> Inl SyntaxError
               | Some caps \<Rightarrow>
                   (case parse (drop (initialStateOffset h) dat) of
                      None \<Rightarrow> Inl SyntaxError
                    | Some st \<Rightarrow>
                        Inr \<lparr>buffer = dat, header = h, footer = f, capabilities = caps,
                             initialState = st, currentOffset = framesOffset h,
                             currentFrame = 0\<rparr>))) \<and>
         MrrReader_load parse dat \<noteq> Inl RangeError"
proof (intro conjI impI)
  note load = load_after_header_and_footer[OF h f, of parse]
  show "MrrReader_load parse dat \<noteq> Inl RangeError"
    by (simp add: load split: option.splits)
  {
    assume "length dat < capabilitiesOffset h + capabilitiesLen h"
    from subarray_beyond[OF len this] load
    show "MrrReader_load parse dat =
              (case parse (drop (capabilitiesOffset h) dat) of
                 None \<Rightarrow> Inl SyntaxError
               | Some caps \<Rightarrow>
                   (case parse (subarray dat (initialStateOffset h)
                                  (js_add (initialStateOffset h) (initialStateLen h))) of
                      None \<Rightarrow> Inl SyntaxError
                    | Some st \<Rightarrow>
                        Inr \<lparr>buffer = dat, header = h, footer = f, capabilities = caps,
                             initialState = st, currentOffset = framesOffset h,
                             currentFrame = 0\<rparr>))"
      by (simp cong: option.case_cong)
  }
  {
    assume "length dat < initialStateOffset h + initialStateLen h"
    from subarray_beyond[OF len this] load
    show "MrrReader_load parse dat =
              (case parse (subarray dat (capabilitiesOffset h)
                             (js_add (capabilitiesOffset h) (capabilitiesLen h))) of
                 None \<Rightarrow> Inl SyntaxError
               | Some caps \<Rightarrow>
                   (case parse (drop (initialStateOffset h) dat) of
                      None \<Rightarrow> Inl SyntaxError
                    | Some st \<Rightarrow>
                        Inr \<lparr>buffer = dat, header = h, footer = f, capabilities = caps,
                             initialState = st, currentOffset = framesOffset h,
                             currentFrame = 0\<rparr>))"
      by (simp cong: option.case_cong)
  }
qed

text \<open>
  A recording of a header and a footer only, whose header places both blobs at offset
  1000, beyond its 288 bytes.
\<close>

definition caps_out_of_range_recording :: buffer where
  "caps_out_of_range_recording =
     MRR_MAGIC @ [1, 0] @ replicate 26 0
     @ [0xE8, 3, 0, 0, 0, 0, 0, 0] @ [2, 0, 0, 0]
     @ [0xE8, 3, 0, 0, 0, 0, 0, 0] @ [2, 0, 0, 0]
     @ [0, 1, 0, 0, 0, 0, 0, 0] @ replicate 192 0
     @ MRR_FOOTER_MAGIC @ replicate 28 0"

definition caps_out_of_range_header :: MrrHeader where
  "caps_out_of_range_header =
     \<lparr>version = 1, MrrHeader.flags = 0, radarBrand = 0, spokesPerRev = 0,
      maxSpokeLen = 0, pixelValues = 0, startTimeMs = 0,
      capabilitiesOffset = 1000, capabilitiesLen = 2,
      initialStateOffset = 1000, initialStateLen = 2,
      framesOffset = 256\<rparr>"

definition empty_footer :: MrrFooter where
  "empty_footer = \<lparr>indexOffset = 0, indexCount = 0, frameCount = 0, durationMs = 0\<rparr>"

lemma caps_out_of_range_length: "length caps_out_of_range_recording = 288"
  by (simp add: caps_out_of_range_recording_def MRR_MAGIC_def MRR_FOOTER_MAGIC_def)

lemma caps_out_of_range_header_decodes:
  "MrrHeader_fromBuffer caps_out_of_range_recording = Inr caps_out_of_range_header"
  by (simp add: MrrHeader_fromBuffer_def caps_out_of_range_recording_def
      caps_out_of_range_header_def MRR_MAGIC_def MRR_FOOTER_MAGIC_def HEADER_SIZE_def
      readU16_def readU32_def readU64_def to_Number_def MRR_VERSION_def)

lemma caps_out_of_range_footer_decodes:
  "MrrFooter_fromBuffer (subarray_from caps_out_of_range_recording
      (int (length caps_out_of_range_recording) - int FOOTER_SIZE)) = Inr empty_footer"
proof -
  let ?pre = "MRR_MAGIC @ [1, 0] @ replicate 26 0
     @ [0xE8, 3, 0, 0, 0, 0, 0, 0] @ [2, 0, 0, 0]
     @ [0xE8, 3, 0, 0, 0, 0, 0, 0] @ [2, 0, 0, 0]
     @ [0, 1, 0, 0, 0, 0, 0, 0] @ replicate 192 (0 :: byte)"
  have "length ?pre = 256" by (simp add: MRR_MAGIC_def)
  then have "drop 256 caps_out_of_range_recording = MRR_FOOTER_MAGIC @ replicate 28 0"
    using drop_at[of ?pre "MRR_FOOTER_MAGIC @ replicate 28 0"]
    by (simp add: caps_out_of_range_recording_def)
  then show ?thesis
    by (simp add: subarray_from_def caps_out_of_range_length FOOTER_SIZE_def
        MrrFooter_fromBuffer_def MRR_FOOTER_MAGIC_def readU32_def readU64_def to_Number_def
        empty_footer_def)
qed

theorem load_clamps_blob_slices_witness:
  "MrrReader_load (\<lambda>b. if b = [] then None else Some ()) caps_out_of_range_recording
     = Inl SyntaxError"
proof -
  have len: "length caps_out_of_range_recording \<le> kMaxLength"
    by (simp add: caps_out_of_range_length kMaxLength_def)
  from load_clamps_blob_slices[where parse = "\<lambda>b. if b = [] then None else Some ()",
      OF len caps_out_of_range_header_decodes caps_out_of_range_footer_decodes,
      THEN conjunct1]
  show ?thesis
    by (simp add: caps_out_of_range_header_def caps_out_of_range_length)
qed

text \<open>
  The claim as first stated fails on that recording: whatever the parser is, \<open>load\<close>
  gives it the empty slice, twice, and returns what it makes of it.
\<close>

theorem out_of_range_blob_counterexample:
  "\<forall>parse :: buffer \<Rightarrow> unit option.
     MrrReader_load parse caps_out_of_range_recording =
       (case parse [] of
          None \<Rightarrow> Inl SyntaxError
        | Some c \<Rightarrow>
            Inr \<lparr>buffer = caps_out_of_range_recording, header = caps_out_of_range_header,
                 footer = empty_footer, capabilities = c, initialState = c,
                 currentOffset = 256, currentFrame = 0\<rparr>)"
proof
  fix parse :: "buffer \<Rightarrow> unit option"
  have slice: "subarray caps_out_of_range_recording 1000 n = []" for n
    by (simp add: subarray_def caps_out_of_range_length)
  show "MrrReader_load parse caps_out_of_range_recording =
       (case parse [] of
          None \<Rightarrow> Inl SyntaxError
        | Some c \<Rightarrow>
            Inr \<lparr>buffer = caps_out_of_range_recording, header = caps_out_of_range_header,
                 footer = empty_footer, capabilities = c, initialState = c,
                 currentOffset = 256, currentFrame = 0\<rparr>)"
    unfolding load_after_header_and_footer[OF caps_out_of_range_header_decodes
        caps_out_of_range_footer_decodes]
    by (simp add: caps_out_of_range_header_def slice split: option.splits)
qed

section \<open>Sequential decode\<close>

lemma readFrame_None:
  assumes "readFrame r = Inr (None, r')"
  shows "frameCount (footer r) \<le> currentFrame r"
  using assms
  by (auto simp: readFrame_def bindE_def split: if_splits sum.splits prod.splits)

lemma frames_loop_length:
  "frames_loop r = Inr (fs, r') \<Longrightarrow>
     length fs = frameCount (footer r) - currentFrame r"
proof (induction r arbitrary: fs r' rule: frames_loop.induct)
  case (1 r)
  show ?case
  proof (cases "readFrame r")
    case (Inl e)
    with "1.prems" show ?thesis by (simp add: frames_loop.simps[of r])
  next
    case (Inr p)
    obtain x r1 where p: "p = (x, r1)" by (cases p)
    show ?thesis
    proof (cases x)
      case None
      with Inr p "1.prems" have "fs = []" by (simp add: frames_loop.simps[of r])
      moreover from Inr p None have "frameCount (footer r) \<le> currentFrame r"
        by (intro readFrame_None[of r r1]) simp
      ultimately show ?thesis by simp
    next
      case (Some frame)
      with Inr p have rf: "readFrame r = Inr (Some frame, r1)" by simp
      from "1.prems" rf obtain fs1 where loop: "frames_loop r1 = Inr (fs1, r')"
        and fs: "fs = frame # fs1"
        by (auto simp: frames_loop.simps[of r] split: sum.splits)
      from "1.IH"[OF Inr p[symmetric] Some loop]
      have "length fs1 = frameCount (footer r1) - currentFrame r1" .
      with readFrame_Some[OF rf] fs show ?thesis by auto
    qed
  qed
qed

subsection \<open>Well-formed recordings\<close>

text \<open>
  Modelled from the spec: the layout of a frame record and of a well-formed file, as the
  spec's sections 3 and 6 word them (the repository reads recordings and holds no writer).
  A frame record is the 8-byte little-endian timestamp, the flags byte, the 4-byte
  little-endian data length and the data bytes, followed, when the frame has a state
  delta, by the 4-byte state length and the state bytes.
\<close>

fun le_bytes :: "nat \<Rightarrow> nat \<Rightarrow> buffer" where
  "le_bytes 0 n = []"
| "le_bytes (Suc k) n = of_nat (n mod 256) # le_bytes k (n div 256)"

definition frame_record :: "MrrFrame \<Rightarrow> buffer" where
  "frame_record f =
     le_bytes 8 (timestampMs f) @ [flags f] @ le_bytes 4 (length (data f)) @ data f
     @ (case stateDelta f of None \<Rightarrow> [] | Some sd \<Rightarrow> le_bytes 4 (length sd) @ sd)"

text \<open>
  The fields fit their widths, and bit 0 of the flags says whether there is a state delta.
\<close>

definition well_formed_frame :: "MrrFrame \<Rightarrow> bool" where
  "well_formed_frame f \<longleftrightarrow>
     timestampMs f < 2 ^ 64 \<and> length (data f) < 2 ^ 32 \<and>
     (case stateDelta f of
        None \<Rightarrow> flags f AND FRAME_FLAG_HAS_STATE = 0
      | Some sd \<Rightarrow> flags f AND FRAME_FLAG_HAS_STATE \<noteq> 0 \<and> length sd < 2 ^ 32)"

text \<open>
  A well-formed file holding the frames \<open>fs\<close>: its header and footer decode, both blobs
  lie inside the file and parse, the footer counts the frames, and their records lie back
  to back from the header's frame offset.
\<close>

definition well_formed_recording :: "(buffer \<Rightarrow> 'j option) \<Rightarrow> buffer \<Rightarrow> MrrFrame list \<Rightarrow> bool" where
  "well_formed_recording parse dat fs \<longleftrightarrow>
     length dat \<le> kMaxLength \<and>
     (case MrrHeader_fromBuffer dat of
        Inl e \<Rightarrow> False
      | Inr h \<Rightarrow>
         (case MrrFooter_fromBuffer
                 (subarray_from dat (int (length dat) - int FOOTER_SIZE)) of
            Inl e \<Rightarrow> False
          | Inr f \<Rightarrow>
              capabilitiesOffset h + capabilitiesLen h \<le> length dat \<and>
              parse (take (capabilitiesLen h) (drop (capabilitiesOffset h) dat)) \<noteq> None \<and>
              initialStateOffset h + initialStateLen h \<le> length dat \<and>
              parse (take (initialStateLen h) (drop (initialStateOffset h) dat)) \<noteq> None \<and>
              frameCount f = length fs \<and>
              list_all well_formed_frame fs \<and>
              framesOffset h + length (concat (map frame_record fs)) \<le> length dat \<and>
              take (length (concat (map frame_record fs))) (drop (framesOffset h) dat)
                = concat (map frame_record fs)))"

text \<open>What the reader makes of a frame: its timestamp becomes a Number.\<close>

definition as_read :: "MrrFrame \<Rightarrow> MrrFrame" where
  "as_read f = f\<lparr>timestampMs := to_Number (timestampMs f)\<rparr>"

lemma le_bytes_numeral:
  "le_bytes (numeral k) n = of_nat (n mod 256) # le_bytes (pred_numeral k) (n div 256)"
  by (simp only: numeral_eq_Suc[of k] le_bytes.simps)

lemma length_le_bytes [simp]: "length (le_bytes k n) = k"
  by (induction k arbitrary: n) simp_all

lemma unat_byte_of_mod: "unat (of_nat (n mod 256) :: byte) = n mod 256"
  by (simp add: unat_of_nat)

lemma le_nat_le_bytes: "le_nat (le_bytes k n) = n mod 256 ^ k"
proof (induction k arbitrary: n)
  case 0
  then show ?case by simp
next
  case (Suc k)
  have "le_nat (le_bytes (Suc k) n) = n mod 256 + 256 * ((n div 256) mod 256 ^ k)"
    by (simp only: le_bytes.simps le_nat.simps unat_byte_of_mod Suc.IH)
  also have "\<dots> = n mod (256 * 256 ^ k)"
    by (simp add: mod_mult2_eq)
  finally show ?case by simp
qed

lemma le_nat_le_bytes_id: "n < 256 ^ k \<Longrightarrow> le_nat (le_bytes k n) = n"
  by (simp add: le_nat_le_bytes)

lemma le_nat_u64:
  assumes "n < 2 ^ 64"
  shows "le_nat (le_bytes 8 n) = n"
proof -
  have "n < 256 ^ 8" using assms by simp
  then show ?thesis by (rule le_nat_le_bytes_id)
qed

lemma le_nat_u32:
  assumes "n < 2 ^ 32"
  shows "le_nat (le_bytes 4 n) = n"
proof -
  have "n < 256 ^ 4" using assms by simp
  then show ?thesis by (rule le_nat_le_bytes_id)
qed

text \<open>A frame record in a buffer decodes to its frame, and the cursor moves past it.\<close>

lemma frame_record_decodes:
  assumes len: "length buf \<le> kMaxLength"
    and buf: "buf = pre @ frame_record f @ rest"
    and wf: "well_formed_frame f"
  shows "MrrFrame_fromBuffer buf (length pre)
           = Inr (as_read f, length pre + length (frame_record f))"
proof -
  let ?ts = "le_bytes 8 (timestampMs f)"
  let ?dl = "le_bytes 4 (length (data f))"
  define o3 where "o3 = length pre + 13"
  define o4 where "o4 = o3 + length (data f)"
  from wf have ts: "le_nat ?ts = timestampMs f" and dl: "le_nat ?dl = length (data f)"
    by (simp_all add: well_formed_frame_def le_nat_u64 le_nat_u32)
  have l3: "length (pre @ ?ts @ [flags f] @ ?dl) = o3"
    by (simp add: o3_def)
  show ?thesis
  proof (cases "stateDelta f")
    case None
    with wf have flag: "flags f AND FRAME_FLAG_HAS_STATE = 0"
      by (simp add: well_formed_frame_def)
    have rec: "frame_record f = ?ts @ [flags f] @ ?dl @ data f"
      by (simp add: frame_record_def None)
    have buf': "buf = pre @ ?ts @ [flags f] @ ?dl @ (data f @ rest)"
      by (simp add: buf rec)
    have "o4 \<le> kMaxLength"
      using len by (simp add: o4_def o3_def buf rec)
    then have a4: "js_add o3 (le_nat ?dl) = o4"
      unfolding dl o4_def by (rule js_add_exact)
    have d: "subarray buf o3 o4 = data f"
      using subarray_at[of "pre @ ?ts @ [flags f] @ ?dl" "data f" rest]
      unfolding l3 o4_def by (simp add: buf')
    have "MrrFrame_fromBuffer buf (length pre) =
            Inr (\<lparr>timestampMs = to_Number (timestampMs f), flags = flags f, data = data f,
                   stateDelta = None\<rparr>, o4)"
      using frame_prefix[OF len buf', folded o3_def, unfolded Let_def a4 d ts] flag
      by simp
    moreover have "o4 = length pre + length (frame_record f)"
      by (simp add: o4_def o3_def rec)
    moreover have "as_read f = \<lparr>timestampMs = to_Number (timestampMs f), flags = flags f,
                               data = data f, stateDelta = None\<rparr>"
      by (simp add: as_read_def None[symmetric])
    ultimately show ?thesis by simp
  next
    case (Some sd)
    let ?sl = "le_bytes 4 (length sd)"
    define o5 where "o5 = o4 + 4"
    define o6 where "o6 = o5 + length sd"
    from wf Some have flag: "flags f AND FRAME_FLAG_HAS_STATE \<noteq> 0"
      and sl: "le_nat ?sl = length sd"
      by (simp_all add: well_formed_frame_def le_nat_u32)
    have rec: "frame_record f = ?ts @ [flags f] @ ?dl @ data f @ ?sl @ sd"
      by (simp add: frame_record_def Some)
    have buf': "buf = pre @ ?ts @ [flags f] @ ?dl @ (data f @ ?sl @ sd @ rest)"
      by (simp add: buf rec)
    have l4: "length (pre @ ?ts @ [flags f] @ ?dl @ data f) = o4"
      by (simp add: o4_def o3_def)
    have l5: "length (pre @ ?ts @ [flags f] @ ?dl @ data f @ ?sl) = o5"
      by (simp add: o5_def o4_def o3_def)
    have bound: "o6 \<le> kMaxLength"
      using len by (simp add: o6_def o5_def o4_def o3_def buf rec)
    then have "o4 \<le> kMaxLength"
      by (simp add: o6_def o5_def)
    then have a4: "js_add o3 (le_nat ?dl) = o4"
      unfolding dl o4_def by (rule js_add_exact)
    have d: "subarray buf o3 o4 = data f"
      using subarray_at[of "pre @ ?ts @ [flags f] @ ?dl" "data f" "?sl @ sd @ rest"]
      unfolding l3 o4_def by (simp add: buf')
    have r: "readU32 buf o4 = Inr (length sd)"
      using readU32_at[of ?sl "pre @ ?ts @ [flags f] @ ?dl @ data f" "sd @ rest"]
      unfolding l4 sl by (simp add: buf')
    have a5: "js_add o4 4 = o5"
      unfolding o5_def using bound by (intro js_add_exact) (simp add: o6_def o5_def)
    have a6: "js_add o5 (length sd) = o6"
      unfolding o6_def using bound by (intro js_add_exact) (simp add: o6_def)
    have s: "subarray buf o5 o6 = sd"
      using subarray_at[of "pre @ ?ts @ [flags f] @ ?dl @ data f @ ?sl" sd rest]
      unfolding l5 o6_def by (simp add: buf')
    have "MrrFrame_fromBuffer buf (length pre) =
            Inr (\<lparr>timestampMs = to_Number (timestampMs f), flags = flags f, data = data f,
                   stateDelta = Some sd\<rparr>, o6)"
      using frame_prefix[OF len buf', folded o3_def, unfolded Let_def a4 d ts] flag
      by (simp add: r a5 a6 s)
    moreover have "o6 = length pre + length (frame_record f)"
      by (simp add: o6_def o5_def o4_def o3_def rec)
    moreover have "as_read f = \<lparr>timestampMs = to_Number (timestampMs f), flags = flags f,
                               data = data f, stateDelta = Some sd\<rparr>"
      by (simp add: as_read_def Some[symmetric])
    ultimately show ?thesis by simp
  qed
qed

text \<open>Frame records that lie back to back are read one after the other.\<close>

lemma frames_loop_on_records:
  assumes "length (buffer r) \<le> kMaxLength"
    and "buffer r = pre @ concat (map frame_record fs) @ rest"
    and "currentOffset r = length pre"
    and "frameCount (footer r) = currentFrame r + length fs"
    and "list_all well_formed_frame fs"
  shows "frames_loop r =
           Inr (map as_read fs,
                r\<lparr>currentOffset := length pre + length (concat (map frame_record fs)),
                  currentFrame := currentFrame r + length fs\<rparr>)"
  using assms
proof (induction fs arbitrary: r pre)
  case Nil
  then have "readFrame r = Inr (None, r)"
    by (simp add: readFrame_def)
  then have "frames_loop r = Inr ([], r)"
    by (subst frames_loop.simps) simp
  moreover have "r\<lparr>currentOffset := length pre, currentFrame := currentFrame r\<rparr> = r"
    using Nil.prems(3) by simp
  ultimately show ?case by simp
next
  case (Cons f fs)
  let ?r1 = "r\<lparr>currentOffset := length pre + length (frame_record f),
                 currentFrame := currentFrame r + 1\<rparr>"
  from Cons.prems(5) have wf: "well_formed_frame f" and wfs: "list_all well_formed_frame fs"
    by simp_all
  have buf: "buffer r = pre @ frame_record f @ (concat (map frame_record fs) @ rest)"
    using Cons.prems(2) by simp
  have "MrrFrame_fromBuffer (buffer r) (currentOffset r)
          = Inr (as_read f, length pre + length (frame_record f))"
    unfolding Cons.prems(3) using Cons.prems(1) buf wf by (rule frame_record_decodes)
  then have step: "readFrame r = Inr (Some (as_read f), ?r1)"
    using Cons.prems(4) by (simp add: readFrame_def)
  have "frames_loop ?r1 =
          Inr (map as_read fs,
               ?r1\<lparr>currentOffset := length (pre @ frame_record f)
                                     + length (concat (map frame_record fs)),
                    currentFrame := currentFrame ?r1 + length fs\<rparr>)"
    using Cons.prems(1,4) wfs
    by (intro Cons.IH) (simp_all add: Cons.prems(2))
  then have "frames_loop r =
          Inr (as_read f # map as_read fs,
               ?r1\<lparr>currentOffset := length (pre @ frame_record f)
                                     + length (concat (map frame_record fs)),
                    currentFrame := currentFrame ?r1 + length fs\<rparr>)"
    by (subst frames_loop.simps) (simp add: step)
  then show ?case by (simp add: add.assoc)
qed

lemma records_in_place:
  assumes "off + length recs \<le> length dat" and "take (length recs) (drop off dat) = recs"
  shows "dat = take off dat @ recs @ drop (off + length recs) dat"
    and "length (take off dat) = off"
proof -
  have "drop off dat = take (length recs) (drop off dat) @ drop (length recs) (drop off dat)"
    by (simp only: append_take_drop_id)
  then have "drop off dat = recs @ drop (off + length recs) dat"
    by (simp only: assms(2) drop_drop add.commute[of "length recs" off])
  then show "dat = take off dat @ recs @ drop (off + length recs) dat"
    by (metis append_take_drop_id)
  show "length (take off dat) = off"
    using assms(1) by simp
qed

lemma subarray_within:
  assumes "length dat \<le> kMaxLength" and "off + n \<le> length dat"
  shows "subarray dat off (js_add off n) = take n (drop off dat)"
proof -
  have "js_add off n = off + n"
    using assms by (intro js_add_exact) simp
  then show ?thesis
    by (simp add: subarray_def drop_take)
qed

lemma well_formed_loads:
  assumes "well_formed_recording parse dat fs"
  shows "\<exists>r. MrrReader_load parse dat = Inr r \<and> buffer r = dat \<and>
             currentOffset r = framesOffset (header r) \<and> currentFrame r = 0 \<and>
             frameCount (footer r) = length fs \<and>
             framesOffset (header r) + length (concat (map frame_record fs)) \<le> length dat \<and>
             take (length (concat (map frame_record fs))) (drop (framesOffset (header r)) dat)
               = concat (map frame_record fs)"
proof -
  from assms obtain h f where len: "length dat \<le> kMaxLength"
    and h: "MrrHeader_fromBuffer dat = Inr h"
    and f: "MrrFooter_fromBuffer (subarray_from dat (int (length dat) - int FOOTER_SIZE)) = Inr f"
    and caps: "capabilitiesOffset h + capabilitiesLen h \<le> length dat"
      "parse (take (capabilitiesLen h) (drop (capabilitiesOffset h) dat)) \<noteq> None"
    and st: "initialStateOffset h + initialStateLen h \<le> length dat"
      "parse (take (initialStateLen h) (drop (initialStateOffset h) dat)) \<noteq> None"
    and rest: "frameCount f = length fs"
      "framesOffset h + length (concat (map frame_record fs)) \<le> length dat"
      "take (length (concat (map frame_record fs))) (drop (framesOffset h) dat)
         = concat (map frame_record fs)"
    by (auto simp: well_formed_recording_def split: sum.splits)
  from caps(2) st(2) obtain c s
    where c: "parse (take (capabilitiesLen h) (drop (capabilitiesOffset h) dat)) = Some c"
      and s: "parse (take (initialStateLen h) (drop (initialStateOffset h) dat)) = Some s"
    by auto
  have "MrrReader_load parse dat =
          Inr \<lparr>buffer = dat, header = h, footer = f, capabilities = c, initialState = s,
               currentOffset = framesOffset h, currentFrame = 0\<rparr>"
    by (simp add: load_after_header_and_footer[OF h f] subarray_within[OF len caps(1)]
        subarray_within[OF len st(1)] c s)
  with rest show ?thesis by simp
qed

text \<open>Sequential decode of a well-formed recording yields the frames it holds.\<close>

lemma well_formed_decodes:
  assumes "well_formed_recording parse dat fs"
  shows "\<exists>r r'. MrrReader_load parse dat = Inr r \<and>
                MrrReader_frames r = Inr (map as_read fs, r') \<and>
                frameCount (footer r) = length fs"
proof -
  from well_formed_loads[OF assms] obtain r where load: "MrrReader_load parse dat = Inr r"
    and buf: "buffer r = dat" and count: "frameCount (footer r) = length fs"
    and fits: "framesOffset (header r) + length (concat (map frame_record fs)) \<le> length dat"
    and recs: "take (length (concat (map frame_record fs))) (drop (framesOffset (header r)) dat)
                 = concat (map frame_record fs)"
    by blast
  let ?r0 = "rewind r"
  let ?pre = "take (framesOffset (header r)) dat"
  from assms have len: "length dat \<le> kMaxLength" and wfs: "list_all well_formed_frame fs"
    by (auto simp: well_formed_recording_def split: sum.splits)
  note place = records_in_place[OF fits recs]
  have "frames_loop ?r0 =
          Inr (map as_read fs,
               ?r0\<lparr>currentOffset := length ?pre + length (concat (map frame_record fs)),
                    currentFrame := currentFrame ?r0 + length fs\<rparr>)"
  proof (rule frames_loop_on_records)
    show "length (buffer ?r0) \<le> kMaxLength"
      using len by (simp add: rewind_def buf)
    show "buffer ?r0 = ?pre @ concat (map frame_record fs)
            @ drop (framesOffset (header r) + length (concat (map frame_record fs))) dat"
      using place(1) by (simp add: rewind_def buf)
    show "currentOffset ?r0 = length ?pre"
      using place(2) by (simp add: rewind_def)
    show "frameCount (footer ?r0) = currentFrame ?r0 + length fs"
      using count by (simp add: rewind_def)
    show "list_all well_formed_frame fs" by (rule wfs)
  qed
  with load count show ?thesis
    by (auto simp: MrrReader_frames_def)
qed

text \<open>
  A recording with two frames, the second with a state delta; both blobs are the JSON
  text \<open>{}\<close>.
\<close>

definition example_header :: buffer where
  "example_header =
     MRR_MAGIC @ [1, 0] @ replicate 26 0
     @ [0, 1, 0, 0, 0, 0, 0, 0] @ [2, 0, 0, 0]
     @ [2, 1, 0, 0, 0, 0, 0, 0] @ [2, 0, 0, 0]
     @ [4, 1, 0, 0, 0, 0, 0, 0] @ replicate 192 0"

definition example_blobs :: buffer where
  "example_blobs = [0x7B, 0x7D] @ [0x7B, 0x7D]"

definition example_frame1 :: buffer where
  "example_frame1 = [100, 0, 0, 0, 0, 0, 0, 0] @ [0] @ [2, 0, 0, 0] @ [7, 8]"

definition example_frame2 :: buffer where
  "example_frame2 = [250, 0, 0, 0, 0, 0, 0, 0] @ [1] @ [1, 0, 0, 0] @ [9] @ [1, 0, 0, 0] @ [5]"

definition example_footer :: buffer where
  "example_footer =
     MRR_FOOTER_MAGIC @ replicate 12 0 @ [2, 0, 0, 0] @ [150, 0, 0, 0, 0, 0, 0, 0]
     @ replicate 4 0"

definition two_frame_recording :: buffer where
  "two_frame_recording =
     example_header @ example_blobs @ example_frame1 @ example_frame2 @ example_footer"

definition example_frames :: "MrrFrame list" where
  "example_frames =
     [\<lparr>timestampMs = 100, flags = 0, data = [7, 8], stateDelta = None\<rparr>,
      \<lparr>timestampMs = 250, flags = 1, data = [9], stateDelta = Some [5]\<rparr>]"

text \<open>
  A stand-in for \<open>JSON.parse\<close> that accepts the text \<open>{}\<close> and nothing else: it accepts
  no text that \<open>JSON.parse\<close> refuses.
\<close>

definition braces_only :: "buffer \<Rightarrow> unit option" where
  "braces_only b = (if b = [0x7B, 0x7D] then Some () else None)"

definition two_frame_header :: MrrHeader where
  "two_frame_header =
     \<lparr>version = 1, MrrHeader.flags = 0, radarBrand = 0, spokesPerRev = 0,
      maxSpokeLen = 0, pixelValues = 0, startTimeMs = 0,
      capabilitiesOffset = 256, capabilitiesLen = 2,
      initialStateOffset = 258, initialStateLen = 2,
      framesOffset = 260\<rparr>"

definition two_frame_footer :: MrrFooter where
  "two_frame_footer = \<lparr>indexOffset = 0, indexCount = 0, frameCount = 2, durationMs = 150\<rparr>"

definition two_frame_reader :: "unit MrrReader" where
  "two_frame_reader =
     \<lparr>buffer = two_frame_recording, header = two_frame_header, footer = two_frame_footer,
      capabilities = (), initialState = (), currentOffset = 260, currentFrame = 0\<rparr>"

lemma example_lengths:
  "length example_header = 256" "length example_blobs = 4" "length example_frame1 = 15"
  "length example_frame2 = 19" "length example_footer = 32"
  "length two_frame_recording = 326"
  by (simp_all add: two_frame_recording_def example_header_def example_blobs_def
      example_frame1_def example_frame2_def example_footer_def MRR_MAGIC_def
      MRR_FOOTER_MAGIC_def)

lemma example_header_decodes:
  "MrrHeader_fromBuffer (example_header @ rest) = Inr two_frame_header"
  by (simp add: MrrHeader_fromBuffer_def example_header_def two_frame_header_def
      MRR_MAGIC_def HEADER_SIZE_def readU16_def readU32_def readU64_def to_Number_def
      MRR_VERSION_def)

lemma example_footer_decodes:
  "MrrFooter_fromBuffer example_footer = Inr two_frame_footer"
  by (simp add: MrrFooter_fromBuffer_def example_footer_def two_frame_footer_def
      MRR_FOOTER_MAGIC_def FOOTER_SIZE_def readU32_def readU64_def to_Number_def)

lemma example_footer_slice:
  "subarray_from two_frame_recording (int (length two_frame_recording) - int FOOTER_SIZE)
     = example_footer"
proof -
  let ?pre = "example_header @ example_blobs @ example_frame1 @ example_frame2"
  have "two_frame_recording = ?pre @ example_footer"
    by (simp add: two_frame_recording_def)
  moreover have "length ?pre = 294"
    by (simp add: example_lengths)
  ultimately have "drop 294 two_frame_recording = example_footer"
    using drop_at[of ?pre example_footer] by simp
  then show ?thesis
    by (simp add: subarray_from_def example_lengths FOOTER_SIZE_def)
qed

lemma example_records:
  "concat (map frame_record example_frames) = example_frame1 @ example_frame2"
  by (simp add: example_frames_def frame_record_def le_bytes_numeral example_frame1_def
      example_frame2_def)

lemma example_tail:
  "drop 256 two_frame_recording
     = example_blobs @ example_frame1 @ example_frame2 @ example_footer"
  using drop_at[of example_header
      "example_blobs @ example_frame1 @ example_frame2 @ example_footer"]
  by (simp add: two_frame_recording_def example_lengths)

lemma two_frame_well_formed:
  "well_formed_recording braces_only two_frame_recording example_frames"
proof -
  have h: "MrrHeader_fromBuffer two_frame_recording = Inr two_frame_header"
    unfolding two_frame_recording_def by (rule example_header_decodes)
  have f: "MrrFooter_fromBuffer (subarray_from two_frame_recording
             (int (length two_frame_recording) - int FOOTER_SIZE)) = Inr two_frame_footer"
    by (simp only: example_footer_slice example_footer_decodes)
  have d256: "drop 256 two_frame_recording
                = [0x7B, 0x7D, 0x7B, 0x7D] @ (example_frame1 @ example_frame2) @ example_footer"
    by (simp add: example_tail example_blobs_def)
  have d258: "drop 258 two_frame_recording
                = [0x7B, 0x7D] @ (example_frame1 @ example_frame2) @ example_footer"
    using arg_cong[OF d256, of "drop 2"] by simp
  have d260: "drop 260 two_frame_recording
                = (example_frame1 @ example_frame2) @ example_footer"
    using arg_cong[OF d256, of "drop 4"] by simp
  have wf: "list_all well_formed_frame example_frames"
    by (simp add: example_frames_def well_formed_frame_def FRAME_FLAG_HAS_STATE_def)
  have l: "length (example_frame1 @ example_frame2) = 34"
    by (simp add: example_lengths)
  show ?thesis
    unfolding well_formed_recording_def h f example_records
    using wf
    by (simp add: two_frame_header_def two_frame_footer_def example_lengths kMaxLength_def
        d256 d258 d260 braces_only_def example_frames_def l)
qed

lemma load_two: "MrrReader_load braces_only two_frame_recording = Inr two_frame_reader"
proof -
  have h: "MrrHeader_fromBuffer two_frame_recording = Inr two_frame_header"
    unfolding two_frame_recording_def by (rule example_header_decodes)
  have f: "MrrFooter_fromBuffer (subarray_from two_frame_recording
             (int (length two_frame_recording) - int FOOTER_SIZE)) = Inr two_frame_footer"
    by (simp only: example_footer_slice example_footer_decodes)
  have len: "length two_frame_recording \<le> kMaxLength"
    by (simp add: example_lengths kMaxLength_def)
  have d256: "drop 256 two_frame_recording
                = [0x7B, 0x7D, 0x7B, 0x7D] @ example_frame1 @ example_frame2 @ example_footer"
    by (simp add: example_tail example_blobs_def)
  have d258: "drop 258 two_frame_recording
                = [0x7B, 0x7D] @ example_frame1 @ example_frame2 @ example_footer"
    using arg_cong[OF d256, of "drop 2"] by simp
  have c: "subarray two_frame_recording 256 (js_add 256 2) = [0x7B, 0x7D]"
    using subarray_within[OF len, of 256 2] by (simp add: example_lengths d256)
  have s: "subarray two_frame_recording 258 (js_add 258 2) = [0x7B, 0x7D]"
    using subarray_within[OF len, of 258 2] by (simp add: example_lengths d258)
  have fields: "capabilitiesOffset two_frame_header = 256" "capabilitiesLen two_frame_header = 2"
    "initialStateOffset two_frame_header = 258" "initialStateLen two_frame_header = 2"
    "framesOffset two_frame_header = 260"
    by (simp_all add: two_frame_header_def)
  show ?thesis
    unfolding load_after_header_and_footer[OF h f] fields c s
    by (simp add: braces_only_def two_frame_reader_def)
qed

lemma frames_two:
  "MrrReader_frames two_frame_reader =
     Inr (example_frames, two_frame_reader\<lparr>currentOffset := 294, currentFrame := 2\<rparr>)"
proof -
  have rw: "rewind two_frame_reader = two_frame_reader"
    by (simp add: rewind_def two_frame_reader_def two_frame_header_def)
  have same: "map as_read example_frames = example_frames"
    by (simp add: example_frames_def as_read_def to_Number_def)
  have "frames_loop two_frame_reader =
          Inr (map as_read example_frames,
               two_frame_reader
                 \<lparr>currentOffset := length (example_header @ example_blobs)
                                    + length (concat (map frame_record example_frames)),
                  currentFrame := currentFrame two_frame_reader + length example_frames\<rparr>)"
  proof (rule frames_loop_on_records)
    show "length (buffer two_frame_reader) \<le> kMaxLength"
      by (simp add: two_frame_reader_def example_lengths kMaxLength_def)
    show "buffer two_frame_reader = (example_header @ example_blobs)
            @ concat (map frame_record example_frames) @ example_footer"
      by (simp add: two_frame_reader_def example_records two_frame_recording_def)
    show "currentOffset two_frame_reader = length (example_header @ example_blobs)"
      by (simp add: two_frame_reader_def example_lengths)
    show "frameCount (footer two_frame_reader)
            = currentFrame two_frame_reader + length example_frames"
      by (simp add: two_frame_reader_def two_frame_footer_def example_frames_def)
    show "list_all well_formed_frame example_frames"
      by (simp add: example_frames_def well_formed_frame_def FRAME_FLAG_HAS_STATE_def)
  qed
  moreover have "length (example_header @ example_blobs)
                   + length (concat (map frame_record example_frames)) = 294"
    by (simp add: example_records example_lengths)
  moreover have "currentFrame two_frame_reader + length example_frames = 2"
    by (simp add: two_frame_reader_def example_frames_def)
  ultimately show ?thesis
    by (simp only: MrrReader_frames_def rw same)
qed

text \<open>\<open>getMetadata\<close> copies header and footer fields.\<close>

record 'j Metadata =
  version :: nat
  radarBrand :: nat
  spokesPerRev :: nat
  maxSpokeLen :: nat
  pixelValues :: nat
  startTimeMs :: nat
  frameCount :: nat
  durationMs :: nat
  capabilities :: 'j
  initialState :: 'j

definition getMetadata :: "'j MrrReader \<Rightarrow> 'j Metadata" where
  "getMetadata r =
     \<lparr>version = MrrHeader.version (header r),
      radarBrand = MrrHeader.radarBrand (header r),
      spokesPerRev = MrrHeader.spokesPerRev (header r),
      maxSpokeLen = MrrHeader.maxSpokeLen (header r),
      pixelValues = MrrHeader.pixelValues (header r),
      startTimeMs = MrrHeader.startTimeMs (header r),
      frameCount = MrrFooter.frameCount (footer r),
      durationMs = MrrFooter.durationMs (footer r),
      capabilities = MrrReader.capabilities r,
      initialState = MrrReader.initialState r\<rparr>"

text \<open>The only exception of a frame read is the \<open>RangeError\<close> of a read outside the buffer.\<close>

lemma read_errors:
  "readU64 buf off = Inl e \<Longrightarrow> e = RangeError"
  "readU32 buf off = Inl e \<Longrightarrow> e = RangeError"
  "readUInt8 buf off = Inl e \<Longrightarrow> e = RangeError"
  by (auto simp: readU64_def readU32_def readUInt8_def split: if_splits)

lemma frame_error_is_range:
  "MrrFrame_fromBuffer buf off = Inl e \<Longrightarrow> e = RangeError"
  by (auto simp: MrrFrame_fromBuffer_def bindE_def Let_def
           split: sum.splits if_splits dest: read_errors)

lemma readFrame_error_is_range: "readFrame r = Inl e \<Longrightarrow> e = RangeError"
  by (auto simp: readFrame_def bindE_def split: if_splits sum.splits prod.splits
           dest: frame_error_is_range)

lemma frames_loop_error_is_range: "frames_loop r = Inl e \<Longrightarrow> e = RangeError"
proof (induction r rule: frames_loop.induct)
  case (1 r)
  show ?case
  proof (cases "readFrame r")
    case (Inl e')
    with "1.prems" have "e' = e" by (simp add: frames_loop.simps[of r])
    with Inl show ?thesis by (simp add: readFrame_error_is_range)
  next
    case (Inr x)
    obtain y r1 where x: "x = (y, r1)" by (cases x)
    show ?thesis
    proof (cases y)
      case None
      with Inr x "1.prems" show ?thesis by (simp add: frames_loop.simps[of r])
    next
      case (Some frame)
      with Inr x "1.prems" have "frames_loop r1 = Inl e"
        by (auto simp: frames_loop.simps[of r] split: sum.splits)
      with "1.IH"[OF Inr x[symmetric] Some] show ?thesis by simp
    qed
  qed
qed

text \<open>
  C5. For every well-formed file, \<open>load\<close> succeeds and the sequential decode of the loaded
  reader runs to its end without an exception: it yields the frames the file holds, in
  order, and their number is the \<open>frameCount\<close> that \<open>getMetadata\<close> reports from the footer.
\<close>

theorem decoded_frame_count:
  assumes "well_formed_recording parse dat fs"
  shows "\<exists>r r'. MrrReader_load parse dat = Inr r \<and>
                MrrReader_frames r = Inr (map as_read fs, r') \<and>
                length (map as_read fs) = frameCount (getMetadata r) \<and>
                frameCount (getMetadata r) = length fs"
proof -
  from well_formed_decodes[OF assms] obtain r r'
    where load: "MrrReader_load parse dat = Inr r"
      and frames: "MrrReader_frames r = Inr (map as_read fs, r')"
      and count: "MrrFooter.frameCount (footer r) = length fs"
    by blast
  have "frameCount (getMetadata r) = length fs"
    using count by (simp add: getMetadata_def)
  with load frames show ?thesis by auto
qed

theorem decoded_frame_count_witness:
  "well_formed_recording braces_only two_frame_recording example_frames \<and>
   MrrReader_load braces_only two_frame_recording = Inr two_frame_reader \<and>
   (\<exists>r'. MrrReader_frames two_frame_reader = Inr (example_frames, r')) \<and>
   frameCount (getMetadata two_frame_reader) = 2 \<and> length example_frames = 2"
proof -
  from decoded_frame_count[OF two_frame_well_formed] obtain r r'
    where "MrrReader_load braces_only two_frame_recording = Inr r"
      and "MrrReader_frames r = Inr (map as_read example_frames, r')"
      and "frameCount (getMetadata r) = length example_frames"
    by blast
  moreover have "map as_read example_frames = example_frames"
    by (simp add: example_frames_def as_read_def to_Number_def)
  moreover have "length example_frames = 2"
    by (simp add: example_frames_def)
  ultimately show ?thesis
    using two_frame_well_formed load_two by auto
qed

section \<open>The player\<close>

text \<open>
  What \<open>getStatus\<close> returns, and what the status route returns: the player's status, or
  the two fields it answers with when no player is loaded.
\<close>

record status =
  state :: string
  radarId :: "string option"
  filename :: string
  positionMs :: nat
  durationMs :: nat
  frame :: nat
  frameCount :: nat
  loopPlayback :: bool

datatype status_reply = NoPlayer string bool | PlayerStatus status

text \<open>
  The fields of \<open>MrrPlayer\<close> that playback reads or writes. \<open>playbackTimer\<close> holds the
  handle that the last \<open>setTimeout\<close> returned (\<open>null\<close> before the first and after a
  \<open>pause\<close>). The constructor's \<open>filename\<close> is the host's \<open>path.basename\<close> of the file path.
  The metadata kept for the radar provider (\<open>spokesPerRev\<close>, \<open>maxSpokeLen\<close>,
  \<open>pixelValues\<close>, \<open>range\<close>) is read by no method of the player and is left out.
\<close>

record MrrPlayer =
  filename :: string
  radarId :: "string option"
  durationMs :: nat
  frameCount :: nat
  playing :: bool
  loop :: bool
  currentFrame :: nat
  positionMs :: nat
  playbackTimer :: "nat option"
  frames :: "MrrFrame list"

definition MrrPlayer_new :: "string \<Rightarrow> MrrPlayer" where
  "MrrPlayer_new name =
     \<lparr>filename = name, radarId = None, durationMs = 0, frameCount = 0, playing = False,
      loop = True, currentFrame = 0, positionMs = 0, playbackTimer = None, frames = []\<rparr>"

text \<open>\<open>filename.replace(/\.mrr(\.gz)?$/, '')\<close>: the name without its recording suffix.\<close>

definition baseName :: "string \<Rightarrow> string" where
  "baseName name =
     (if 7 \<le> length name \<and> drop (length name - 7) name = ''.mrr.gz''
        then take (length name - 7) name
      else if 4 \<le> length name \<and> drop (length name - 4) name = ''.mrr''
        then take (length name - 4) name
      else name)"

text \<open>
  \<open>MrrPlayer.load\<close>: load the reader, copy duration and frame count from the metadata,
  decode all frames ahead of playback, and name the radar after the file.
\<close>

definition MrrPlayer_load ::
    "(buffer \<Rightarrow> 'j option) \<Rightarrow> buffer \<Rightarrow> MrrPlayer \<Rightarrow> error + MrrPlayer" where
  "MrrPlayer_load parse dat p =
     bindE (MrrReader_load parse dat) (\<lambda>r.
       let meta = getMetadata r;
           p1 = p\<lparr>durationMs := Metadata.durationMs meta,
                  frameCount := Metadata.frameCount meta\<rparr>
       in bindE (MrrReader_frames r) (\<lambda>(fs, r').
            Inr (p1\<lparr>frames := fs,
                     radarId := Some (''playback-'' @ baseName (filename p1))\<rparr>)))"

definition getStatus :: "MrrPlayer \<Rightarrow> status" where
  "getStatus p =
     \<lparr>state = (if playing p then ''playing''
                else if currentFrame p > 0 then ''paused'' else ''loaded''),
      radarId = radarId p,
      filename = filename p,
      positionMs = positionMs p,
      durationMs = durationMs p,
      frame = currentFrame p,
      frameCount = frameCount p,
      loopPlayback = loop p\<rparr>"

text \<open>The route \<open>GET /playback/status\<close>, on the plugin's \<open>player\<close> variable.\<close>

definition playback_status :: "MrrPlayer option \<Rightarrow> status_reply" where
  "playback_status player =
     (case player of
        None \<Rightarrow> NoPlayer ''idle'' True
      | Some p \<Rightarrow> PlayerStatus (getStatus p))"

text \<open>The route \<open>PUT /playback/settings\<close> with a boolean \<open>loopPlayback\<close>.\<close>

definition setLooping :: "bool \<Rightarrow> MrrPlayer \<Rightarrow> MrrPlayer" where
  "setLooping b p = p\<lparr>loop := b\<rparr>"

subsection \<open>The host: timers, the stream, the plugin status\<close>

text \<open>
  The two closures the player passes to \<open>setTimeout\<close>: \<open>() => this.scheduleNextFrame()\<close>,
  and the loop restart, which resets the position first.
\<close>

datatype callback = NextFrame | LoopRestart

record timeout =
  handle :: nat
  delay :: int
  action :: callback

text \<open>
  What the player touches outside itself: the timeouts it has armed that have neither
  fired nor been cleared, with the delay in milliseconds it asked for; whether the app has
  a \<open>binaryStreamManager\<close>, and the \<open>emitData\<close> calls made on it, oldest first; and the
  plugin status text.
\<close>

record host =
  timers :: "timeout list"
  nextHandle :: nat
  binaryStreamManager :: bool
  emitted :: "(string \<times> buffer) list"
  pluginStatus :: string

definition setTimeout :: "host \<Rightarrow> callback \<Rightarrow> int \<Rightarrow> nat \<times> host" where
  "setTimeout h cb ms =
     (nextHandle h,
      h\<lparr>timers := timers h @ [\<lparr>handle = nextHandle h, delay = ms, action = cb\<rparr>],
        nextHandle := nextHandle h + 1\<rparr>)"

definition clearTimeout :: "host \<Rightarrow> nat \<Rightarrow> host" where
  "clearTimeout h t = h\<lparr>timers := filter (\<lambda>x. handle x \<noteq> t) (timers h)\<rparr>"

text \<open>
  \<open>emitData\<close> on the stream \<open>radars/<radarId>\<close>, when the app has a stream manager; an
  exception of \<open>emitData\<close> is caught and logged, and changes nothing here.
\<close>

definition emitFrame :: "MrrPlayer \<Rightarrow> MrrFrame \<Rightarrow> host \<Rightarrow> host" where
  "emitFrame p fr h =
     (if binaryStreamManager h
      then h\<lparr>emitted := emitted h
                @ [(''radars/'' @ (case radarId p of None \<Rightarrow> ''null'' | Some i \<Rightarrow> i), data fr)]\<rparr>
      else h)"

text \<open>
  A call either returns or exhausts the JavaScript stack (\<open>RangeError: Maximum call stack
  size exceeded\<close>); either way it leaves the player and the host in a state.
\<close>

datatype 'a outcome = Returned 'a | StackExhausted 'a

fun state_after :: "'a outcome \<Rightarrow> 'a" where
  "state_after (Returned s) = s"
| "state_after (StackExhausted s) = s"

text \<open>
  \<open>scheduleNextFrame\<close>. Its first argument is the number of calls the stack still has
  room for: the method calls itself when playback loops at the end of the frames.
\<close>

fun scheduleNextFrame :: "nat \<Rightarrow> MrrPlayer \<Rightarrow> host \<Rightarrow> (MrrPlayer \<times> host) outcome" where
  "scheduleNextFrame 0 p h = StackExhausted (p, h)"
| "scheduleNextFrame (Suc stack) p h =
     (if \<not> playing p then Returned (p, h)
      else if currentFrame p \<ge> length (frames p) then
        (if loop p
         then scheduleNextFrame stack (p\<lparr>currentFrame := 0, positionMs := 0\<rparr>) h
         else Returned (p\<lparr>playing := False\<rparr>,
                        h\<lparr>pluginStatus := ''Finished: '' @ filename p\<rparr>))
      else
        let fr = frames p ! currentFrame p;
            h1 = emitFrame p fr h;
            p1 = p\<lparr>positionMs := timestampMs fr, currentFrame := currentFrame p + 1\<rparr>
        in if currentFrame p1 < length (frames p1) then
             let nextFrame = frames p1 ! currentFrame p1;
                 deltaMs = js_sub (timestampMs nextFrame) (timestampMs fr);
                 (t, h2) = setTimeout h1 NextFrame (max 1 deltaMs)
             in Returned (p1\<lparr>playbackTimer := Some t\<rparr>, h2)
           else if loop p1 then
             let (t, h2) = setTimeout h1 LoopRestart 100
             in Returned (p1\<lparr>playbackTimer := Some t\<rparr>, h2)
           else Returned (p1\<lparr>playing := False\<rparr>,
                          h1\<lparr>pluginStatus := ''Finished: '' @ filename p1\<rparr>))"

definition play :: "nat \<Rightarrow> MrrPlayer \<Rightarrow> host \<Rightarrow> (MrrPlayer \<times> host) outcome" where
  "play stack p h =
     (if playing p then Returned (p, h)
      else scheduleNextFrame stack (p\<lparr>playing := True\<rparr>) h)"

definition pause :: "MrrPlayer \<Rightarrow> host \<Rightarrow> MrrPlayer \<times> host" where
  "pause p h =
     (let p1 = p\<lparr>playing := False\<rparr>
      in case playbackTimer p1 of
           Some t \<Rightarrow> (p1\<lparr>playbackTimer := None\<rparr>, clearTimeout h t)
         | None \<Rightarrow> (p1, h))"

text \<open>
  \<open>stop\<close>: pause, then reset the position. Between the two the source writes a debug line
  when the app has a radar API; that changes no state.
\<close>

definition stop :: "MrrPlayer \<Rightarrow> host \<Rightarrow> MrrPlayer \<times> host" where
  "stop p h =
     (let (p1, h1) = pause p h
      in (p1\<lparr>currentFrame := 0, positionMs := 0\<rparr>, h1))"

text \<open>A pending timeout fires: it leaves the timer queue and its callback runs.\<close>

definition fire :: "nat \<Rightarrow> timeout \<Rightarrow> MrrPlayer \<Rightarrow> host \<Rightarrow> (MrrPlayer \<times> host) outcome" where
  "fire stack t p h =
     (let h1 = h\<lparr>timers := remove1 t (timers h)\<rparr>
      in case action t of
           NextFrame \<Rightarrow> scheduleNextFrame stack p h1
         | LoopRestart \<Rightarrow>
             scheduleNextFrame stack (p\<lparr>currentFrame := 0, positionMs := 0\<rparr>) h1)"

subsection \<open>Runs of the player\<close>

text \<open>
  What can happen to a loaded player: the four control requests of the router, and the
  firing of a timeout that is pending. \<open>Play\<close> and \<open>Fire\<close> carry the room left on the stack
  when they call \<open>scheduleNextFrame\<close>.
\<close>

datatype event = Play nat | Pause | Stop | SetLooping bool | Fire nat timeout

fun apply_event :: "event \<Rightarrow> MrrPlayer \<times> host \<Rightarrow> (MrrPlayer \<times> host) option" where
  "apply_event (Play stack) (p, h) = Some (state_after (play stack p h))"
| "apply_event Pause (p, h) = Some (pause p h)"
| "apply_event Stop (p, h) = Some (stop p h)"
| "apply_event (SetLooping b) (p, h) = Some (setLooping b p, h)"
| "apply_event (Fire stack t) (p, h) =
     (if t \<in> set (timers h) then Some (state_after (fire stack t p h)) else None)"

text \<open>A sequence of events, \<open>None\<close> when one of them is a timeout that is not pending.\<close>

fun run_events :: "event list \<Rightarrow> MrrPlayer \<times> host \<Rightarrow> (MrrPlayer \<times> host) option" where
  "run_events [] s = Some s"
| "run_events (e # es) s =
     (case apply_event e s of None \<Rightarrow> None | Some s' \<Rightarrow> run_events es s')"

text \<open>
  A player as \<open>load\<close> leaves it (not playing, at frame 0 and 0 ms, no timer armed),
  together with a host that holds no timeout of this player.
\<close>

definition freshly_loaded :: "MrrPlayer \<times> host \<Rightarrow> bool" where
  "freshly_loaded s \<longleftrightarrow>
     (case s of (p, h) \<Rightarrow>
        \<not> playing p \<and> currentFrame p = 0 \<and> positionMs p = 0 \<and> playbackTimer p = None
        \<and> timers h = [])"

fun is_Play :: "event \<Rightarrow> bool" where
  "is_Play (Play stack) = True"
| "is_Play e = False"


section \<open>Playback: basic facts\<close>

text \<open>Between Numbers below \<open>2^53\<close> the subtraction of JavaScript is exact.\<close>

lemma js_sub_exact:
  "a \<le> kMaxLength \<Longrightarrow> b \<le> kMaxLength \<Longrightarrow> js_sub a b = int a - int b"
  by (auto simp: js_sub_def to_Number_exact)

subsection \<open>One call of \<open>scheduleNextFrame\<close>, case by case\<close>

lemma schedule_next:
  assumes "playing p" and "currentFrame p + 1 < length (frames p)"
  shows "scheduleNextFrame (Suc stack) p h =
           Returned
             (p\<lparr>positionMs := timestampMs (frames p ! currentFrame p),
                currentFrame := currentFrame p + 1,
                playbackTimer := Some (nextHandle h)\<rparr>,
              (emitFrame p (frames p ! currentFrame p) h)
                \<lparr>timers := timers h @
                   [\<lparr>handle = nextHandle h,
                     delay = max 1 (js_sub (timestampMs (frames p ! (currentFrame p + 1)))
                                           (timestampMs (frames p ! currentFrame p))),
                     action = NextFrame\<rparr>],
                 nextHandle := nextHandle h + 1\<rparr>)"
  using assms by (simp add: Let_def setTimeout_def emitFrame_def)


lemma schedule_last_finish:
  assumes "playing p" and "\<not> loop p" and "currentFrame p + 1 = length (frames p)"
  shows "scheduleNextFrame (Suc stack) p h =
           Returned (p\<lparr>positionMs := timestampMs (frames p ! currentFrame p),
                       currentFrame := length (frames p), playing := False\<rparr>,
                     (emitFrame p (frames p ! currentFrame p) h)
                       \<lparr>pluginStatus := ''Finished: '' @ filename p\<rparr>)"
  using assms by (simp add: Let_def)

lemma schedule_end_finish:
  assumes "playing p" and "\<not> loop p" and "length (frames p) \<le> currentFrame p"
  shows "scheduleNextFrame (Suc stack) p h =
           Returned (p\<lparr>playing := False\<rparr>,
                     h\<lparr>pluginStatus := ''Finished: '' @ filename p\<rparr>)"
  using assms by simp

lemma schedule_end_loop:
  assumes "playing p" and "loop p" and "length (frames p) \<le> currentFrame p"
  shows "scheduleNextFrame (Suc stack) p h =
           scheduleNextFrame stack (p\<lparr>currentFrame := 0, positionMs := 0\<rparr>) h"
  using assms by simp

subsection \<open>At most one timeout is pending\<close>

definition one_timer :: "MrrPlayer \<times> host \<Rightarrow> bool" where
  "one_timer s \<longleftrightarrow>
     (case s of (p, h) \<Rightarrow>
        timers h = [] \<or>
        (\<exists>t. timers h = [t] \<and> playing p \<and> playbackTimer p = Some (handle t)))"

lemma schedule_one_timer:
  "timers h = [] \<Longrightarrow> one_timer (state_after (scheduleNextFrame stack p h))"
proof (induction stack arbitrary: p)
  case 0
  then show ?case by (simp add: one_timer_def)
next
  case (Suc stack)
  then show ?case
    by (auto simp: one_timer_def Let_def setTimeout_def emitFrame_def)
qed

lemma pause_clears: "one_timer (p, h) \<Longrightarrow> timers (snd (pause p h)) = []"
  by (auto simp: one_timer_def pause_def clearTimeout_def Let_def split: option.splits)

lemma pause_not_playing: "\<not> playing (fst (pause p h))"
  by (simp add: pause_def Let_def split: option.splits)

lemma stop_clears: "one_timer (p, h) \<Longrightarrow> timers (snd (stop p h)) = []"
  using pause_clears[of p h] by (auto simp: stop_def Let_def split: prod.splits)

lemma one_timer_empty: "timers h = [] \<Longrightarrow> one_timer (p, h)"
  by (simp add: one_timer_def)

lemma apply_event_one_timer:
  assumes "one_timer s" and "apply_event e s = Some s'"
  shows "one_timer s'"
proof -
  obtain p h where s: "s = (p, h)" by (cases s)
  show ?thesis
  proof (cases e)
    case (Play stack)
    show ?thesis
    proof (cases "playing p")
      case True
      with assms Play s show ?thesis by (auto simp: play_def)
    next
      case False
      with assms(1) s have "timers h = []" by (auto simp: one_timer_def)
      from schedule_one_timer[OF this] assms(2) Play s False show ?thesis
        by (auto simp: play_def)
    qed
  next
    case Pause
    with assms s pause_clears[of p h] show ?thesis
      by (cases "pause p h") (auto intro: one_timer_empty)
  next
    case Stop
    with assms s stop_clears[of p h] show ?thesis
      by (cases "stop p h") (auto intro: one_timer_empty)
  next
    case (SetLooping b)
    with assms s show ?thesis by (auto simp: one_timer_def setLooping_def)
  next
    case (Fire stack t)
    with assms(2) s have t: "t \<in> set (timers h)"
      and s': "s' = state_after (fire stack t p h)"
      by (auto split: if_splits)
    from t assms(1) s have "timers h = [t]" by (auto simp: one_timer_def)
    then have "timers (h\<lparr>timers := remove1 t (timers h)\<rparr>) = []" by simp
    from schedule_one_timer[OF this] show ?thesis
      by (simp add: s' fire_def Let_def split: callback.splits)
  qed
qed

lemma run_events_one_timer:
  "one_timer s \<Longrightarrow> run_events es s = Some s' \<Longrightarrow> one_timer s'"
proof (induction es arbitrary: s)
  case Nil
  then show ?case by simp
next
  case (Cons e es)
  then show ?case
    by (auto split: option.splits dest: apply_event_one_timer)
qed

lemma freshly_loaded_one_timer: "freshly_loaded s \<Longrightarrow> one_timer s"
  by (auto simp: freshly_loaded_def one_timer_def)

subsection \<open>Nothing is delivered while paused\<close>

definition at_rest :: "MrrPlayer \<times> host \<Rightarrow> bool" where
  "at_rest s \<longleftrightarrow> (case s of (p, h) \<Rightarrow> \<not> playing p \<and> timers h = [])"

lemma pause_at_rest: "one_timer (p, h) \<Longrightarrow> at_rest (pause p h)"
  using pause_clears[of p h] pause_not_playing[of p h]
  by (cases "pause p h") (simp add: at_rest_def)

lemma pause_emitted: "emitted (snd (pause p h)) = emitted h"
  by (simp add: pause_def clearTimeout_def Let_def split: option.splits)

lemma apply_event_at_rest:
  assumes "at_rest (p, h)" and "\<not> is_Play e" and "apply_event e (p, h) = Some (p', h')"
  shows "at_rest (p', h') \<and> emitted h' = emitted h \<and> (\<forall>stack t. e \<noteq> Fire stack t)"
  using assms
  by (cases e)
     (auto simp: at_rest_def pause_def stop_def setLooping_def clearTimeout_def Let_def
           split: option.splits)

lemma run_events_at_rest:
  assumes "at_rest (p, h)" and "\<forall>e \<in> set es. \<not> is_Play e"
    and "run_events es (p, h) = Some (p', h')"
  shows "at_rest (p', h') \<and> emitted h' = emitted h \<and> (\<forall>stack t. Fire stack t \<notin> set es)"
  using assms
proof (induction es arbitrary: p h)
  case Nil
  then show ?case by simp
next
  case (Cons e es)
  from Cons.prems(3) obtain p1 h1 where e: "apply_event e (p, h) = Some (p1, h1)"
    and rest: "run_events es (p1, h1) = Some (p', h')"
    by (auto split: option.splits)
  from Cons.prems(2) have ne: "\<not> is_Play e" and nes: "\<forall>e \<in> set es. \<not> is_Play e"
    by simp_all
  from apply_event_at_rest[OF Cons.prems(1) ne e]
  have r1: "at_rest (p1, h1)" and e1: "emitted h1 = emitted h"
    and nf: "\<forall>stack t. e \<noteq> Fire stack t" by simp_all
  from Cons.IH[OF r1 nes rest] e1 nf show ?case by auto
qed

subsection \<open>Looping is changed by the settings route only\<close>


lemma load_keeps_fields:
  assumes "MrrPlayer_load parse dat p0 = Inr p"
  shows "loop p = loop p0 \<and> playing p = playing p0 \<and> currentFrame p = currentFrame p0 \<and>
         positionMs p = positionMs p0 \<and> playbackTimer p = playbackTimer p0"
  using assms
  by (auto simp: MrrPlayer_load_def bindE_def Let_def split: sum.splits prod.splits)

lemma load_freshly_loaded:
  assumes "MrrPlayer_load parse dat (MrrPlayer_new name) = Inr p" and "timers h = []"
  shows "freshly_loaded (p, h)"
  using load_keeps_fields[OF assms(1)] assms(2)
  by (simp add: freshly_loaded_def MrrPlayer_new_def)




subsection \<open>A player on the two-frame recording\<close>

definition two_frame_player :: MrrPlayer where
  "two_frame_player =
     \<lparr>filename = ''two.mrr.gz'', radarId = Some ''playback-two'', durationMs = 150,
      frameCount = 2, playing = False, loop = True, currentFrame = 0, positionMs = 0,
      playbackTimer = None, frames = example_frames\<rparr>"

definition quiet_host :: host where
  "quiet_host =
     \<lparr>timers = [], nextHandle = 0, binaryStreamManager = True, emitted = [],
      pluginStatus = ''Loaded: two.mrr.gz''\<rparr>"

text \<open>The state after \<open>play\<close>: frame 0 delivered, frame 1 due in 150 ms.\<close>

definition two_frame_playing :: "MrrPlayer \<times> host" where
  "two_frame_playing =
     (two_frame_player\<lparr>playing := True, positionMs := 100, currentFrame := 1,
                        playbackTimer := Some 0\<rparr>,
      quiet_host\<lparr>emitted := [(''radars/playback-two'', [7, 8])],
                 timers := [\<lparr>handle = 0, delay = 150, action = NextFrame\<rparr>],
                 nextHandle := 1\<rparr>)"

lemma player_load_two:
  "MrrPlayer_load braces_only two_frame_recording (MrrPlayer_new ''two.mrr.gz'')
     = Inr two_frame_player"
proof -
  have "Metadata.durationMs (getMetadata two_frame_reader) = 150"
    and "Metadata.frameCount (getMetadata two_frame_reader) = 2"
    by (simp_all add: getMetadata_def two_frame_reader_def two_frame_footer_def)
  then show ?thesis
    by (simp add: MrrPlayer_load_def load_two frames_two MrrPlayer_new_def
        two_frame_player_def baseName_def Let_def)
qed

lemma two_frame_fresh: "freshly_loaded (two_frame_player, quiet_host)"
  using load_freshly_loaded[OF player_load_two, of quiet_host]
  by (simp add: quiet_host_def)

lemma two_frame_play:
  "run_events [Play 8] (two_frame_player, quiet_host) = Some two_frame_playing"
  using schedule_next[of "two_frame_player\<lparr>playing := True\<rparr>" 7 quiet_host]
  by (simp add: play_def two_frame_player_def quiet_host_def two_frame_playing_def
      example_frames_def emitFrame_def js_sub_def to_Number_def)

text \<open>The state after the last frame of a non-looping playback.\<close>

definition two_frame_finished :: "MrrPlayer \<times> host" where
  "two_frame_finished =
     (two_frame_player\<lparr>loop := False, playing := False, positionMs := 250, currentFrame := 2,
                        playbackTimer := Some 0\<rparr>,
      quiet_host\<lparr>emitted := [(''radars/playback-two'', [7, 8]), (''radars/playback-two'', [9])],
                 timers := [], nextHandle := 1,
                 pluginStatus := ''Finished: two.mrr.gz''\<rparr>)"

lemma two_frame_finish:
  "run_events [SetLooping False, Play 8,
               Fire 8 \<lparr>handle = 0, delay = 150, action = NextFrame\<rparr>]
     (two_frame_player, quiet_host) = Some two_frame_finished"
proof -
  let ?t = "\<lparr>handle = 0, delay = 150, action = NextFrame\<rparr>"
  let ?p0 = "two_frame_player\<lparr>loop := False\<rparr>"
  let ?p1 = "two_frame_player\<lparr>loop := False, playing := True, positionMs := 100,
               currentFrame := 1, playbackTimer := Some 0\<rparr>"
  let ?h1 = "quiet_host\<lparr>emitted := [(''radars/playback-two'', [7, 8])],
                 timers := [?t], nextHandle := 1\<rparr>"
  have s1: "apply_event (SetLooping False) (two_frame_player, quiet_host)
              = Some (?p0, quiet_host)"
    by (simp add: setLooping_def)
  have s2: "apply_event (Play 8) (?p0, quiet_host) = Some (?p1, ?h1)"
    using schedule_next[of "?p0\<lparr>playing := True\<rparr>" 7 quiet_host]
    by (simp add: play_def two_frame_player_def quiet_host_def example_frames_def
        emitFrame_def js_sub_def to_Number_def)
  have s3: "apply_event (Fire 8 ?t) (?p1, ?h1) = Some two_frame_finished"
    using schedule_last_finish[of ?p1 7 "?h1\<lparr>timers := []\<rparr>"]
    by (simp add: fire_def two_frame_player_def quiet_host_def example_frames_def
        emitFrame_def two_frame_finished_def numeral_2_eq_2)
  show ?thesis
    by (simp only: run_events.simps s1 s2 s3 option.case)
qed

section \<open>Playback: the claims\<close>

text \<open>
  C4. While playing, when the frame at the current index is delivered and a next frame
  exists, \<open>scheduleNextFrame\<close> returns with one more timeout armed: the next delivery,
  after \<open>max(1, next.timestampMs - current.timestampMs)\<close> milliseconds, the subtraction
  being that of JavaScript Numbers (exact whenever both timestamps are below \<open>2^53\<close>). The
  delay is at least 1 whatever the two timestamps are.
\<close>

theorem next_delivery_delay:
  assumes "playing p" and "currentFrame p + 1 < length (frames p)"
  shows "scheduleNextFrame (Suc stack) p h =
           Returned
             (p\<lparr>positionMs := timestampMs (frames p ! currentFrame p),
                currentFrame := currentFrame p + 1,
                playbackTimer := Some (nextHandle h)\<rparr>,
              (emitFrame p (frames p ! currentFrame p) h)
                \<lparr>timers := timers h @
                   [\<lparr>handle = nextHandle h,
                     delay = max 1 (js_sub (timestampMs (frames p ! (currentFrame p + 1)))
                                           (timestampMs (frames p ! currentFrame p))),
                     action = NextFrame\<rparr>],
                 nextHandle := nextHandle h + 1\<rparr>) \<and>
         1 \<le> max 1 (js_sub (timestampMs (frames p ! (currentFrame p + 1)))
                            (timestampMs (frames p ! currentFrame p))) \<and>
         (timestampMs (frames p ! (currentFrame p + 1)) \<le> kMaxLength \<and>
          timestampMs (frames p ! currentFrame p) \<le> kMaxLength \<longrightarrow>
            max 1 (js_sub (timestampMs (frames p ! (currentFrame p + 1)))
                          (timestampMs (frames p ! currentFrame p)))
              = max 1 (int (timestampMs (frames p ! (currentFrame p + 1)))
                        - int (timestampMs (frames p ! currentFrame p))))"
  using schedule_next[OF assms, of stack h]
  by (simp add: js_sub_exact)

theorem next_delivery_delay_witness:
  "timers (snd (state_after
       (scheduleNextFrame 8 (two_frame_player\<lparr>playing := True\<rparr>) quiet_host)))
     = [\<lparr>handle = 0, delay = 150, action = NextFrame\<rparr>] \<and>
   timers (snd (state_after
       (scheduleNextFrame 8 (two_frame_player\<lparr>playing := True, frames := rev example_frames\<rparr>)
          quiet_host)))
     = [\<lparr>handle = 0, delay = 1, action = NextFrame\<rparr>]"
  using next_delivery_delay[of "two_frame_player\<lparr>playing := True\<rparr>" 7 quiet_host]
    next_delivery_delay[of "two_frame_player\<lparr>playing := True, frames := rev example_frames\<rparr>"
      7 quiet_host]
  by (simp add: two_frame_player_def quiet_host_def example_frames_def emitFrame_def
      kMaxLength_def)

text \<open>
  C6 (as amended). When the end of the sequence is reached while playing with looping
  off, be it on delivering the last frame or on a call made past the last frame, the
  player stops playing, keeps its position at the end, and sets the plugin status text to
  \<open>Finished: <filename>\<close>. \<open>getStatus\<close> has no state of its own for this: it reports
  \<open>paused\<close>, or \<open>loaded\<close> when the frame index is 0 (a recording without frames).
\<close>

theorem finished_is_reported_as_paused:
  assumes "playing p" and "\<not> loop p"
  shows "(currentFrame p + 1 = length (frames p) \<longrightarrow>
            scheduleNextFrame (Suc stack) p h =
              Returned (p\<lparr>positionMs := timestampMs (frames p ! currentFrame p),
                          currentFrame := length (frames p), playing := False\<rparr>,
                        (emitFrame p (frames p ! currentFrame p) h)
                          \<lparr>pluginStatus := ''Finished: '' @ filename p\<rparr>) \<and>
            state (getStatus (fst (state_after (scheduleNextFrame (Suc stack) p h))))
              = ''paused'') \<and>
         (length (frames p) \<le> currentFrame p \<longrightarrow>
            scheduleNextFrame (Suc stack) p h =
              Returned (p\<lparr>playing := False\<rparr>,
                        h\<lparr>pluginStatus := ''Finished: '' @ filename p\<rparr>) \<and>
            state (getStatus (fst (state_after (scheduleNextFrame (Suc stack) p h))))
              = (if currentFrame p > 0 then ''paused'' else ''loaded''))"
  using schedule_last_finish[OF assms, of stack h] schedule_end_finish[OF assms, of stack h]
  by (auto simp: getStatus_def)

theorem finished_is_reported_as_paused_witness:
  "scheduleNextFrame 8 ((fst two_frame_playing)\<lparr>loop := False\<rparr>)
       ((snd two_frame_playing)\<lparr>timers := []\<rparr>) = Returned two_frame_finished \<and>
   state (getStatus (fst two_frame_finished)) = ''paused'' \<and>
   pluginStatus (snd two_frame_finished) = ''Finished: two.mrr.gz'' \<and>
   state (getStatus (fst (state_after
       (scheduleNextFrame 8 ((MrrPlayer_new ''none.mrr'')\<lparr>loop := False, playing := True\<rparr>)
          quiet_host)))) = ''loaded''"
  using finished_is_reported_as_paused[of "(fst two_frame_playing)\<lparr>loop := False\<rparr>" 7
      "(snd two_frame_playing)\<lparr>timers := []\<rparr>"]
    finished_is_reported_as_paused[of
      "(MrrPlayer_new ''none.mrr'')\<lparr>loop := False, playing := True\<rparr>" 7 quiet_host]
  by (simp add: two_frame_playing_def two_frame_player_def quiet_host_def example_frames_def
      emitFrame_def two_frame_finished_def MrrPlayer_new_def getStatus_def numeral_2_eq_2)

text \<open>
  The claim as first stated fails on the two-frame recording: loaded, looping switched
  off, played to its end, the status route reports the state \<open>paused\<close>.
\<close>

theorem finished_status_counterexample:
  "run_events [SetLooping False, Play 8,
               Fire 8 \<lparr>handle = 0, delay = 150, action = NextFrame\<rparr>]
     (two_frame_player, quiet_host) = Some two_frame_finished \<and>
   playback_status (Some (fst two_frame_finished)) =
     PlayerStatus \<lparr>state = ''paused'', radarId = Some ''playback-two'',
                    filename = ''two.mrr.gz'', positionMs = 250, durationMs = 150,
                    frame = 2, frameCount = 2, loopPlayback = False\<rparr>"
  by (simp only: two_frame_finish)
     (simp add: playback_status_def getStatus_def two_frame_finished_def two_frame_player_def)

text \<open>
  C7. In every state that a freshly loaded player reaches by any sequence of play, pause,
  stop, loop-setting and timer events, \<open>stop\<close> leaves no timeout of the player pending and
  makes \<open>getStatus\<close> report frame 0 and 0 ms.
\<close>

theorem stop_resets:
  assumes "freshly_loaded s0" and "run_events es s0 = Some (p, h)"
  shows "timers (snd (stop p h)) = [] \<and>
         frame (getStatus (fst (stop p h))) = 0 \<and>
         status.positionMs (getStatus (fst (stop p h))) = 0"
proof -
  have "one_timer (p, h)"
    using assms by (blast intro: run_events_one_timer freshly_loaded_one_timer)
  then have "timers (snd (stop p h)) = []" by (rule stop_clears)
  then show ?thesis
    by (simp add: stop_def getStatus_def Let_def split: prod.splits)
qed

theorem stop_resets_witness:
  "freshly_loaded (two_frame_player, quiet_host) \<and>
   run_events [Play 8] (two_frame_player, quiet_host) = Some two_frame_playing \<and>
   timers (snd two_frame_playing) = [\<lparr>handle = 0, delay = 150, action = NextFrame\<rparr>] \<and>
   timers (snd (stop (fst two_frame_playing) (snd two_frame_playing))) = [] \<and>
   frame (getStatus (fst (stop (fst two_frame_playing) (snd two_frame_playing)))) = 0 \<and>
   status.positionMs (getStatus (fst (stop (fst two_frame_playing) (snd two_frame_playing)))) = 0"
  using stop_resets[OF two_frame_fresh, of "[Play 8]" "fst two_frame_playing"
      "snd two_frame_playing"] two_frame_fresh two_frame_play
  by (simp add: two_frame_playing_def)

text \<open>
  C8. In every state that a freshly loaded player reaches, at most one timeout is
  pending, and \<open>pause\<close> leaves none: the cancelled callback cannot fire. Through any
  later sequence of events without a \<open>play\<close>, no timeout event occurs, none is pending,
  the player stays not playing, and nothing more is emitted.
\<close>

theorem pause_cancels_delivery:
  assumes "freshly_loaded s0" and "run_events es s0 = Some (p, h)"
    and "\<forall>e \<in> set later. \<not> is_Play e"
    and "run_events later (pause p h) = Some (p', h')"
  shows "length (timers h) \<le> 1 \<and> timers (snd (pause p h)) = [] \<and>
         (\<forall>stack t. Fire stack t \<notin> set later) \<and>
         \<not> playing p' \<and> timers h' = [] \<and> emitted h' = emitted h"
proof -
  have one: "one_timer (p, h)"
    using assms(1,2) by (blast intro: run_events_one_timer freshly_loaded_one_timer)
  then have "length (timers h) \<le> 1"
    by (auto simp: one_timer_def)
  moreover have "timers (snd (pause p h)) = []"
    using one by (rule pause_clears)
  moreover obtain p1 h1 where ph: "pause p h = (p1, h1)" by (cases "pause p h")
  have "at_rest (p1, h1)" using pause_at_rest[OF one] ph by simp
  from run_events_at_rest[OF this assms(3) assms(4)[unfolded ph]]
  have "at_rest (p', h') \<and> emitted h' = emitted h1 \<and> (\<forall>stack t. Fire stack t \<notin> set later)" .
  moreover have "emitted h1 = emitted h" using pause_emitted[of p h] ph by simp
  ultimately show ?thesis by (simp add: at_rest_def)
qed

theorem pause_cancels_delivery_witness:
  "run_events [Play 8] (two_frame_player, quiet_host) = Some two_frame_playing \<and>
   timers (snd two_frame_playing) = [\<lparr>handle = 0, delay = 150, action = NextFrame\<rparr>] \<and>
   run_events [SetLooping False, Pause]
       (pause (fst two_frame_playing) (snd two_frame_playing))
     = Some (pause ((fst two_frame_playing)\<lparr>loop := False\<rparr>) (snd two_frame_playing)) \<and>
   timers (snd (pause (fst two_frame_playing) (snd two_frame_playing))) = [] \<and>
   emitted (snd (pause ((fst two_frame_playing)\<lparr>loop := False\<rparr>) (snd two_frame_playing)))
     = emitted (snd two_frame_playing) \<and>
   run_events [Fire 8 \<lparr>handle = 0, delay = 150, action = NextFrame\<rparr>]
       (pause (fst two_frame_playing) (snd two_frame_playing)) = None"
proof -
  have run: "run_events [SetLooping False, Pause]
       (pause (fst two_frame_playing) (snd two_frame_playing))
     = Some (pause ((fst two_frame_playing)\<lparr>loop := False\<rparr>) (snd two_frame_playing))"
    by (simp add: pause_def setLooping_def two_frame_playing_def clearTimeout_def Let_def)
  have quiet: "\<forall>e \<in> set [SetLooping False, Pause]. \<not> is_Play e" by simp
  obtain p' h' where ph:
    "pause ((fst two_frame_playing)\<lparr>loop := False\<rparr>) (snd two_frame_playing) = (p', h')"
    by (cases "pause ((fst two_frame_playing)\<lparr>loop := False\<rparr>) (snd two_frame_playing)")
  from pause_cancels_delivery[OF two_frame_fresh, of "[Play 8]" "fst two_frame_playing"
      "snd two_frame_playing", OF _ quiet run[unfolded ph]] two_frame_play
  have "timers (snd (pause (fst two_frame_playing) (snd two_frame_playing))) = [] \<and>
        emitted h' = emitted (snd two_frame_playing)" by simp
  moreover have "run_events [Fire 8 \<lparr>handle = 0, delay = 150, action = NextFrame\<rparr>]
       (pause (fst two_frame_playing) (snd two_frame_playing)) = None"
    by (simp add: pause_def two_frame_playing_def clearTimeout_def Let_def)
  ultimately show ?thesis
    using run two_frame_play ph by (simp add: two_frame_playing_def)
qed



end
